theory Spec2Isabelle
  imports Main "HOL-Library.Multiset" "HOL-Library.AList" "HOL-Library.Char_ord"
    "HOL-Library.List_Lexorder"
begin

section \<open>JavaScript built-ins used by index.js\<close>

text \<open>
  Strings are byte lists; with \<open>Char_ord\<close> and \<open>List_Lexorder\<close> the order \<open><\<close> on
  strings is the lexicographic one. Storage keys are lower-case hex strings starting
  with \<open>0x\<close>, two digits per byte, so on keys this order is the order of the bytes.
\<close>

text \<open>\<open>s.startsWith(p)\<close>\<close>

definition startsWith :: "string \<Rightarrow> string \<Rightarrow> bool" where
  "startsWith s p = (take (length p) s = p)"

text \<open>\<open>i.toString(16)\<close> for a non-negative integer: lower-case digits, no leading zero.\<close>

definition hexDigit :: "nat \<Rightarrow> char" where
  "hexDigit d = ''0123456789abcdef'' ! d"

function toString16 :: "nat \<Rightarrow> string" where
  "toString16 n = (if n < 16 then [hexDigit n] else toString16 (n div 16) @ [hexDigit (n mod 16)])"
  by pat_completeness auto
termination
  by (relation "measure id") auto

text \<open>\<open>s.padStart(n, pad)\<close>: the pad string is repeated and cut to the missing length.\<close>

definition padStart :: "nat \<Rightarrow> string \<Rightarrow> string \<Rightarrow> string" where
  "padStart n pad s =
     (if n \<le> length s \<or> pad = [] then s
      else take (n - length s) (concat (replicate (n - length s) pad)) @ s)"

text \<open>\<open>s.slice(b, e)\<close>: a negative index counts from the end, both are clamped.\<close>

definition slice :: "string \<Rightarrow> int \<Rightarrow> int \<Rightarrow> string" where
  "slice s b e =
     (let n = int (length s);
          from = (if b < 0 then max (n + b) 0 else min b n);
          to = (if e < 0 then max (n + e) 0 else min e n)
      in take (nat (to - from)) (drop (nat from) s))"

text \<open>\<open>xs.join(sep)\<close>\<close>

fun join :: "string \<Rightarrow> string list \<Rightarrow> string" where
  "join sep [] = []"
| "join sep [x] = x"
| "join sep (x # y # ys) = x @ sep @ join sep (y # ys)"

text \<open>
  A value as index.js pairs it with a key: \<open>values[i]\<close> is \<open>undefined\<close> past the end of
  \<open>values\<close>, \<open>null\<close> for a key without a value, and a hex string otherwise.
\<close>

datatype jsval = Undefined | Null | Str string

text \<open>
  \<open>JSON.stringify\<close> on an array of \<open>[key, value]\<close> arrays. A string is quoted; the quote,
  the backslash and the control characters are escaped. \<open>null\<close> and, inside an array,
  \<open>undefined\<close> are both written \<open>null\<close>.
\<close>

definition escapeChar :: "char \<Rightarrow> string" where
  "escapeChar c =
     (if c = CHR 0x22 then [CHR 0x5C, CHR 0x22]
      else if c = CHR 0x5C then [CHR 0x5C, CHR 0x5C]
      else if c = CHR 0x08 then [CHR 0x5C, CHR ''b'']
      else if c = CHR 0x0C then [CHR 0x5C, CHR ''f'']
      else if c = CHR 0x0A then [CHR 0x5C, CHR ''n'']
      else if c = CHR 0x0D then [CHR 0x5C, CHR ''r'']
      else if c = CHR 0x09 then [CHR 0x5C, CHR ''t'']
      else if (of_char c :: nat) < 0x20
        then [CHR 0x5C, CHR ''u'', CHR ''0'', CHR ''0''] @ padStart 2 ''0'' (toString16 (of_char c))
      else [c])"

definition quoteJSON :: "string \<Rightarrow> string" where
  "quoteJSON s = [CHR 0x22] @ concat (map escapeChar s) @ [CHR 0x22]"

fun valueText :: "jsval \<Rightarrow> string" where
  "valueText (Str s) = quoteJSON s"
| "valueText Null = ''null''"
| "valueText Undefined = ''null''"

definition pairText :: "string \<times> jsval \<Rightarrow> string" where
  "pairText p = ''['' @ quoteJSON (fst p) @ '','' @ valueText (snd p) @ '']''"

definition JSON_stringify :: "(string \<times> jsval) list \<Rightarrow> string" where
  "JSON_stringify pairs = ''['' @ join '','' (map pairText pairs) @ '']''"

section \<open>The remote node and the state of a run\<close>

datatype error = RpcError string | TypeError

text \<open>
  The three calls of the fetch phase. Each is a function of its arguments (the node
  answers from one finalized block) and may fail.
\<close>

record remote =
  chain_getFinalizedHead :: "error + string"
  state_getKeysPaged :: "string \<Rightarrow> nat \<Rightarrow> string option \<Rightarrow> string \<Rightarrow> error + string list"
  state_queryStorageAt :: "string list \<Rightarrow> string \<Rightarrow> error + jsval list"

text \<open>The network calls a run makes, in the order it issues them.\<close>

datatype rpc =
    FinalizedHead
  | KeysPaged string nat "string option" string
  | StorageAt "string list" string

text \<open>The lines of the console the fetch phase prints.\<close>

datatype logmsg =
    ReusingCachedStorage
  | FetchingCurrentState
  | StartingAtBlock string
  | KeysFetched nat
  | LengthsNotEqual nat nat

text \<open>
  The module-level variables \<open>separator\<close>, \<open>chunksFetched\<close> and \<open>total_keys_count\<close>, the
  file \<open>data/storage.json\<close> (\<open>None\<close> when it does not exist), the console and the network.
  The progress bar shows \<open>chunksFetched\<close> and has no state of its own here.
\<close>

record state =
  storageFile :: "string option"
  separator :: bool
  chunksFetched :: nat
  total_keys_count :: nat
  console :: "logmsg list"
  network :: "rpc list"

definition console_log :: "logmsg \<Rightarrow> state \<Rightarrow> state" where
  "console_log m st = st\<lparr>console := console st @ [m]\<rparr>"

definition send :: "rpc \<Rightarrow> state \<Rightarrow> state" where
  "send c st = st\<lparr>network := network st @ [c]\<rparr>"

text \<open>\<open>stream.write(s)\<close> on the stream opened with the flag \<open>a\<close>: it appends, creating the file.\<close>

definition stream_write :: "string \<Rightarrow> state \<Rightarrow> state" where
  "stream_write s st =
     st\<lparr>storageFile := Some ((case storageFile st of None \<Rightarrow> [] | Some c \<Rightarrow> c) @ s)\<rparr>"

section \<open>fetchChunks\<close>

definition page :: nat where
  "page = 512"

text \<open>Lines 174-178 and 195-199: one pair per key, the value read at the key's index.\<close>

definition makePairs :: "string list \<Rightarrow> jsval list \<Rightarrow> (string \<times> jsval) list" where
  "makePairs keys vals =
     map (\<lambda>i. (keys ! i, if i < length vals then vals ! i else Undefined)) [0..<length keys]"

text \<open>Lines 180-181 and 200-201.\<close>

definition writePairs :: "(string \<times> jsval) list \<Rightarrow> state \<Rightarrow> state" where
  "writePairs pairs st =
     stream_write (slice (JSON_stringify pairs) 1 (- 1))
       (if separator st then stream_write '','' st else st\<lparr>separator := True\<rparr>)"

text \<open>Lines 171-181 and 192-201: the values of a page arrive; its batch is written.\<close>

definition receiveValues :: "string list \<Rightarrow> jsval list \<Rightarrow> state \<Rightarrow> state" where
  "receiveValues keys vals st =
     writePairs (makePairs keys vals)
       (if length vals \<noteq> length keys
        then console_log (LengthsNotEqual (length vals) (length keys)) st
        else st)"

text \<open>Lines 170-181 and 191-201: the bulk lookup of a non-empty page, and its batch.\<close>

definition fetchValues :: "remote \<Rightarrow> string \<Rightarrow> string list \<Rightarrow> state \<Rightarrow> error + state" where
  "fetchValues r at keys st =
     (case state_queryStorageAt r keys at of
        Inl e \<Rightarrow> Inl e
      | Inr vals \<Rightarrow> Inr (receiveValues keys vals (send (StorageAt keys at) st)))"

text \<open>Lines 185-202: the body of the while loop, from the last page to the next one.\<close>

definition nextPage ::
  "remote \<Rightarrow> string \<Rightarrow> string \<Rightarrow> string list \<Rightarrow> state \<Rightarrow> error + string list \<times> state" where
  "nextPage r at prefix keys st =
     (let key_count = length keys;
          st1 = console_log (KeysFetched (total_keys_count st + key_count))
                  (st\<lparr>total_keys_count := total_keys_count st + key_count\<rparr>);
          cursor = Some (keys ! (key_count - 1));
          st2 = send (KeysPaged prefix page cursor at) st1
      in case state_getKeysPaged r prefix page cursor at of
           Inl e \<Rightarrow> Inl e
         | Inr keys' \<Rightarrow>
             if length keys' > 0
             then (case fetchValues r at keys' st2 of
                     Inl e \<Rightarrow> Inl e
                   | Inr st3 \<Rightarrow> Inr (keys', st3))
             else Inr (keys', st2))"

text \<open>
  Lines 184-203: \<open>while (key_count == page)\<close>. The loop runs for as long as the node
  returns full pages; \<open>None\<close> is the run that never leaves it.
\<close>

partial_function (option) fetchLoop ::
  "remote \<Rightarrow> string \<Rightarrow> string \<Rightarrow> string list \<Rightarrow> state \<Rightarrow> (error + state) option" where
  "fetchLoop r at prefix keys st =
     (if length keys = page
      then (case nextPage r at prefix keys st of
              Inl e \<Rightarrow> Some (Inl e)
            | Inr (keys', st') \<Rightarrow> fetchLoop r at prefix keys' st')
      else Some (Inr st))"

text \<open>Lines 163-207: the base case, \<open>levelsRemaining <= 0\<close>.\<close>

definition firstPage ::
  "remote \<Rightarrow> string \<Rightarrow> string \<Rightarrow> state \<Rightarrow> error + string list \<times> state" where
  "firstPage r at prefix st =
     (let st1 = send (KeysPaged prefix page None at) st
      in case state_getKeysPaged r prefix page None at of
           Inl e \<Rightarrow> Inl e
         | Inr keys \<Rightarrow>
             if length keys > 0
             then (case fetchValues r at keys
                          (console_log (KeysFetched (total_keys_count st1 + length keys))
                             (st1\<lparr>total_keys_count := total_keys_count st1 + length keys\<rparr>)) of
                     Inl e \<Rightarrow> Inl e
                   | Inr st2 \<Rightarrow> Inr (keys, st2))
             else Inr (keys, st1))"

definition fetchBase :: "remote \<Rightarrow> string \<Rightarrow> string \<Rightarrow> state \<Rightarrow> (error + state) option" where
  "fetchBase r at prefix st =
     (case firstPage r at prefix st of
        Inl e \<Rightarrow> Some (Inl e)
      | Inr (keys, st1) \<Rightarrow>
          (case fetchLoop r at prefix keys st1 of
             None \<Rightarrow> None
           | Some (Inl e) \<Rightarrow> Some (Inl e)
           | Some (Inr st2) \<Rightarrow> Some (Inr (st2\<lparr>chunksFetched := chunksFetched st2 + 1\<rparr>))))"

text \<open>Lines 213 and 218: the prefix of child \<open>i\<close>.\<close>

definition childPrefix :: "string \<Rightarrow> nat \<Rightarrow> string" where
  "childPrefix prefix i = prefix @ padStart 2 ''0'' (toString16 i)"

text \<open>
  \<open>for (...) await f(i)\<close>: the calls run one after the other, each on the state the one
  before left; an error or a call that does not return ends the loop.
\<close>

fun forAwait ::
  "('a \<Rightarrow> state \<Rightarrow> (error + state) option) \<Rightarrow> 'a list \<Rightarrow> state \<Rightarrow> (error + state) option" where
  "forAwait f [] st = Some (Inr st)"
| "forAwait f (x # xs) st =
     (case f x st of
        None \<Rightarrow> None
      | Some (Inl e) \<Rightarrow> Some (Inl e)
      | Some (Inr st') \<Rightarrow> forAwait f xs st')"

lemma forAwait_cong [fundef_cong]:
  "xs = ys \<Longrightarrow> st = st' \<Longrightarrow> (\<And>x s. x \<in> set ys \<Longrightarrow> f x s = g x s) \<Longrightarrow>
   forAwait f xs st = forAwait g ys st'"
proof (induction ys arbitrary: xs st st')
  case Nil
  then show ?case by simp
next
  case (Cons y ys)
  have "forAwait f ys s = forAwait g ys s" for s
    using Cons.IH [of ys s s] Cons.prems(3) by simp
  with Cons.prems show ?case
    by (simp split: option.splits sum.splits)
qed

text \<open>
  Lines 162-221 with \<open>QUICK_MODE\<close> unset: the base case at \<open>levelsRemaining <= 0\<close>, and
  otherwise the 256 children in turn, one level lower.
\<close>

function fetchChunks ::
  "remote \<Rightarrow> string \<Rightarrow> string \<Rightarrow> int \<Rightarrow> state \<Rightarrow> (error + state) option" where
  "fetchChunks r at prefix levelsRemaining st =
     (if levelsRemaining \<le> 0 then fetchBase r at prefix st
      else forAwait (\<lambda>i. fetchChunks r at (childPrefix prefix i) (levelsRemaining - 1))
             [0..<256] st)"
  by pat_completeness auto
termination
  by (relation "measure (\<lambda>(r, at, prefix, levelsRemaining, st). nat levelsRemaining)") auto


text \<open>The prefixes on which the base case runs, in the order of the calls.\<close>

function leafChunks :: "string \<Rightarrow> int \<Rightarrow> string list" where
  "leafChunks prefix levelsRemaining =
     (if levelsRemaining \<le> 0 then [prefix]
      else concat (map (\<lambda>i. leafChunks (childPrefix prefix i) (levelsRemaining - 1)) [0..<256]))"
  by pat_completeness auto
termination
  by (relation "measure (\<lambda>(prefix, levelsRemaining). nat levelsRemaining)") auto

text \<open>Line 23: \<open>Math.pow(256, chunksLevel)\<close>, for a level that is a natural number.\<close>

definition totalChunks :: "nat \<Rightarrow> nat" where
  "totalChunks chunksLevel = 256 ^ chunksLevel"

section \<open>The fetch phase of main\<close>

text \<open>Lines 81-85: the stream is opened, \<open>[\<close> is written, the finalized head is asked for.\<close>

definition openSnapshot :: "state \<Rightarrow> state" where
  "openSnapshot st = send FinalizedHead (stream_write ''['' (console_log FetchingCurrentState st))"

text \<open>Lines 77-92 with \<open>QUICK_MODE\<close> unset.\<close>

definition fetchPhase :: "remote \<Rightarrow> int \<Rightarrow> state \<Rightarrow> (error + state) option" where
  "fetchPhase r chunksLevel st =
     (if storageFile st \<noteq> None then Some (Inr (console_log ReusingCachedStorage st))
      else (case chain_getFinalizedHead r of
              Inl e \<Rightarrow> Some (Inl e)
            | Inr at \<Rightarrow>
                (case fetchChunks r at ''0x'' chunksLevel
                        (console_log (StartingAtBlock at) (openSnapshot st)) of
                   None \<Rightarrow> None
                 | Some (Inl e) \<Rightarrow> Some (Inl e)
                 | Some (Inr st') \<Rightarrow> Some (Inr (stream_write '']'' st')))))"

section \<open>QUICK\_MODE: the 256 leaves of a parent run concurrently\<close>

text \<open>
  An async call runs until its next \<open>await\<close> without interruption. A leaf call of
  \<open>fetchChunks\<close> is therefore, between two steps, at one of its three awaits: the
  request is on the network and the call waits for the answer.
\<close>

datatype task =
    AwaitFirstKeys string
  | AwaitValues string "string list"
  | AwaitNextKeys string string
  | Finished

text \<open>
  One step of a leaf call: the answer arrives and the call runs to its next await, or
  to its end. Line 164 to line 170 or 205; line 170 or 191 to line 187 or 205; line
  187 to line 191 or 205 (an empty page is not a full one, so the loop ends).
\<close>

fun resume :: "remote \<Rightarrow> string \<Rightarrow> task \<Rightarrow> state \<Rightarrow> error + task \<times> state" where
  "resume r at (AwaitFirstKeys prefix) st =
     (case state_getKeysPaged r prefix page None at of
        Inl e \<Rightarrow> Inl e
      | Inr keys \<Rightarrow>
          if length keys > 0
          then Inr (AwaitValues prefix keys,
                 send (StorageAt keys at)
                   (console_log (KeysFetched (total_keys_count st + length keys))
                      (st\<lparr>total_keys_count := total_keys_count st + length keys\<rparr>)))
          else Inr (Finished, st\<lparr>chunksFetched := chunksFetched st + 1\<rparr>))"
| "resume r at (AwaitValues prefix keys) st =
     (case state_queryStorageAt r keys at of
        Inl e \<Rightarrow> Inl e
      | Inr vals \<Rightarrow>
          (let st1 = receiveValues keys vals st; key_count = length keys
           in if key_count = page
              then Inr (AwaitNextKeys prefix (keys ! (key_count - 1)),
                     send (KeysPaged prefix page (Some (keys ! (key_count - 1))) at)
                       (console_log (KeysFetched (total_keys_count st1 + key_count))
                          (st1\<lparr>total_keys_count := total_keys_count st1 + key_count\<rparr>)))
              else Inr (Finished, st1\<lparr>chunksFetched := chunksFetched st1 + 1\<rparr>)))"
| "resume r at (AwaitNextKeys prefix cursor) st =
     (case state_getKeysPaged r prefix page (Some cursor) at of
        Inl e \<Rightarrow> Inl e
      | Inr keys \<Rightarrow>
          if length keys > 0
          then Inr (AwaitValues prefix keys, send (StorageAt keys at) st)
          else Inr (Finished, st\<lparr>chunksFetched := chunksFetched st + 1\<rparr>))"
| "resume r at Finished st = Inr (Finished, st)"

text \<open>
  Lines 211-214: the 256 calls are made one after the other; each runs to its first
  await, line 164, where its first request is sent.
\<close>

definition spawnLeaves :: "string \<Rightarrow> string \<Rightarrow> state \<Rightarrow> task list \<times> state" where
  "spawnLeaves at prefix st =
     (map (\<lambda>i. AwaitFirstKeys (childPrefix prefix i)) [0..<256],
      fold (\<lambda>i. send (KeysPaged (childPrefix prefix i) page None at)) [0..<256] st)"

text \<open>
  Line 215, \<open>await Promise.all(promises)\<close>: the answers arrive in any order, each
  resuming its call for one step; the await returns when every call has finished and
  throws when one throws.
\<close>

inductive awaitAll :: "remote \<Rightarrow> string \<Rightarrow> task list \<Rightarrow> state \<Rightarrow> error + state \<Rightarrow> bool"
  for r :: remote and at :: string where
  finished: "list_all (\<lambda>t. t = Finished) ts \<Longrightarrow> awaitAll r at ts st (Inr st)"
| thrown: "i < length ts \<Longrightarrow> ts ! i \<noteq> Finished \<Longrightarrow> resume r at (ts ! i) st = Inl e \<Longrightarrow>
     awaitAll r at ts st (Inl e)"
| step: "i < length ts \<Longrightarrow> ts ! i \<noteq> Finished \<Longrightarrow> resume r at (ts ! i) st = Inr (t', st') \<Longrightarrow>
     awaitAll r at (ts[i := t']) st' res \<Longrightarrow> awaitAll r at ts st res"

text \<open>
  Lines 162-221 with \<open>QUICK_MODE\<close> set: the base case as before, the leaves of a parent
  at \<open>levelsRemaining == 1\<close> concurrently, and every level above in turn. The run is a
  relation: the result depends on the order in which the answers arrive.
\<close>

inductive fetchChunksQuick ::
    "remote \<Rightarrow> string \<Rightarrow> string \<Rightarrow> int \<Rightarrow> state \<Rightarrow> error + state \<Rightarrow> bool"
  and forAwaitQuick ::
    "remote \<Rightarrow> string \<Rightarrow> string \<Rightarrow> int \<Rightarrow> nat list \<Rightarrow> state \<Rightarrow> error + state \<Rightarrow> bool"
  for r :: remote and at :: string where
  base: "levelsRemaining \<le> 0 \<Longrightarrow> fetchBase r at prefix st = Some res \<Longrightarrow>
     fetchChunksQuick r at prefix levelsRemaining st res"
| leaves: "levelsRemaining = 1 \<Longrightarrow> spawnLeaves at prefix st = (ts, st1) \<Longrightarrow>
     awaitAll r at ts st1 res \<Longrightarrow> fetchChunksQuick r at prefix levelsRemaining st res"
| inner: "levelsRemaining > 1 \<Longrightarrow>
     forAwaitQuick r at prefix (levelsRemaining - 1) [0..<256] st res \<Longrightarrow>
     fetchChunksQuick r at prefix levelsRemaining st res"
| none: "forAwaitQuick r at prefix l [] st (Inr st)"
| thrown: "fetchChunksQuick r at (childPrefix prefix i) l st (Inl e) \<Longrightarrow>
     forAwaitQuick r at prefix l (i # js) st (Inl e)"
| continue: "fetchChunksQuick r at (childPrefix prefix i) l st (Inr st') \<Longrightarrow>
     forAwaitQuick r at prefix l js st' res \<Longrightarrow>
     forAwaitQuick r at prefix l (i # js) st res"

text \<open>Lines 77-92 with \<open>QUICK_MODE\<close> set.\<close>

inductive fetchPhaseQuick :: "remote \<Rightarrow> int \<Rightarrow> state \<Rightarrow> error + state \<Rightarrow> bool"
  for r :: remote and chunksLevel :: int where
  reuse: "storageFile st \<noteq> None \<Longrightarrow>
     fetchPhaseQuick r chunksLevel st (Inr (console_log ReusingCachedStorage st))"
| no_head: "storageFile st = None \<Longrightarrow> chain_getFinalizedHead r = Inl e \<Longrightarrow>
     fetchPhaseQuick r chunksLevel st (Inl e)"
| thrown: "storageFile st = None \<Longrightarrow> chain_getFinalizedHead r = Inr at \<Longrightarrow>
     fetchChunksQuick r at ''0x'' chunksLevel
       (console_log (StartingAtBlock at) (openSnapshot st)) (Inl e) \<Longrightarrow>
     fetchPhaseQuick r chunksLevel st (Inl e)"
| fetched: "storageFile st = None \<Longrightarrow> chain_getFinalizedHead r = Inr at \<Longrightarrow>
     fetchChunksQuick r at ''0x'' chunksLevel
       (console_log (StartingAtBlock at) (openSnapshot st)) (Inr st') \<Longrightarrow>
     fetchPhaseQuick r chunksLevel st (Inr (stream_write '']'' st'))"

section \<open>The splice of main\<close>

text \<open>
  A parsed JSON document. An object is the list of its members in the order of the
  file; a key is looked up with \<open>map_of\<close>, \<open>o[k] = v\<close> is \<open>AList.update\<close> (in place,
  or appended for a new key) and \<open>delete o[k]\<close> is \<open>AList.delete\<close>. The keys written are
  the hex strings of the snapshot and of lines 131-150. Numbers are carried along
  untouched.
\<close>

datatype json =
    JNull
  | JBool bool
  | JNumber int
  | JString string
  | JArray "json list"
  | JObject "(string \<times> json) list"

text \<open>
  What lines 121-123 read of the original chain spec: its name and id, which are
  strings, and its \<open>protocolId\<close>, \<open>None\<close> when it has no such member.
\<close>

record originalSpec =
  specName :: string
  specId :: string
  specProtocolId :: "json option"

text \<open>Line 127: \<open>prefixes.some((prefix) => i[0].startsWith(prefix))\<close>\<close>

definition someStartsWith :: "string list \<Rightarrow> string \<times> json \<Rightarrow> bool" where
  "someStartsWith prefixes i = list_ex (\<lambda>prefix. startsWith (fst i) prefix) prefixes"

text \<open>Lines 126-128, on the object \<open>forkedSpec.genesis.raw.top\<close>.\<close>

definition insertStorage ::
  "string list \<Rightarrow> (string \<times> json) list \<Rightarrow> (string \<times> json) list \<Rightarrow> (string \<times> json) list" where
  "insertStorage prefixes storage top' =
     fold (\<lambda>(key, val). AList.update key val) (filter (someStartsWith prefixes) storage) top'"

text \<open>
  Lines 130-151, on the same object; \<open>code\<close> is the trimmed text of \<open>runtime.hex\<close> and
  \<open>alice\<close> the environment variable \<open>ALICE\<close>, empty when unset.
\<close>

definition fixedKeys :: "string \<Rightarrow> string \<Rightarrow> (string \<times> json) list \<Rightarrow> (string \<times> json) list" where
  "fixedKeys code alice top' =
     (let t1 = AList.delete ''0x26aa394eea5630e07c48ae0c9558cef7f9cce9c888469bb1a0dceaa129672ef8'' top';
          t2 = AList.update ''0x3a636f6465'' (JString (''0x'' @ code)) t1;
          t3 = AList.update ''0x5f3e4907f716ac89b6347d15ececedcaf7dad0317324aecae8744b87fc95f2f3''
                 (JString ''0x02'') t2
      in if alice \<noteq> []
         then AList.update ''0xaebd463ed9925c488c112434d61debc0ba7fb8745735dc3be2a2c61a72c39e78''
                (JString ''0x04d43593c715fdd31c61141abd04a99fd6822c8558854ccde39a5684e7a56da27d'')
             (AList.update ''0xe2e62dd81c48a88f73b6f6463555fd8eba7fb8745735dc3be2a2c61a72c39e78''
                (JString ''0x04d43593c715fdd31c61141abd04a99fd6822c8558854ccde39a5684e7a56da27d0010a5d4e800000000000000000000000010a5d4e80000000000000000000000'')
             (AList.update ''0xed25f63942de25ac5253ba64b5eb64d1ba7fb8745735dc3be2a2c61a72c39e78''
                (JString ''0x04d43593c715fdd31c61141abd04a99fd6822c8558854ccde39a5684e7a56da27d'')
             (AList.update ''0x3a2d6c9353500637d8f8e3e0fa0bb1c5ba7fb8745735dc3be2a2c61a72c39e78''
                (JString ''0x04d43593c715fdd31c61141abd04a99fd6822c8558854ccde39a5684e7a56da27d'')
             (AList.update ''0x5c0d1176a568c1f92944340dbfed9e9c530ebca703c85910e7164cb7d1c9e47b''
                (JString ''0xd43593c715fdd31c61141abd04a99fd6822c8558854ccde39a5684e7a56da27d'')
                t3))))
         else t3)"

text \<open>
  The value of \<open>forkedSpec.genesis.raw.top\<close> on which lines 126-151 run, and \<open>None\<close> when
  they throw a TypeError. Reading \<open>genesis.raw\<close> throws when \<open>genesis\<close> is missing or
  null and gives \<open>undefined\<close> when it is a string, a number, a boolean or an array, and
  so does reading \<open>raw.top\<close>; on a \<open>top\<close> that is \<open>undefined\<close> or null, line 128 or line
  131 throws.
\<close>

definition getTop :: "(string \<times> json) list \<Rightarrow> json option" where
  "getTop spec =
     (case map_of spec ''genesis'' of
        Some (JObject genesis) \<Rightarrow>
          (case map_of genesis ''raw'' of
             Some (JObject raw) \<Rightarrow>
               (case map_of raw ''top'' of
                  None \<Rightarrow> None
                | Some JNull \<Rightarrow> None
                | Some top' \<Rightarrow> Some top')
           | _ \<Rightarrow> None)
      | _ \<Rightarrow> None)"

text \<open>
  Lines 126-151 on the value of \<open>top\<close>, as line 153 writes it. The file is not in strict
  mode: on a string, a number or a boolean an assignment to a property does nothing and
  \<open>delete\<close> gives \<open>true\<close>; on an array the keys, which start with \<open>0x\<close>, become properties
  that \<open>JSON.stringify\<close> leaves out. Such a \<open>top\<close> is written as it was.
\<close>

definition spliceTop ::
  "string list \<Rightarrow> (string \<times> json) list \<Rightarrow> string \<Rightarrow> string \<Rightarrow> json \<Rightarrow> json" where
  "spliceTop prefixes storage code alice top' =
     (case top' of
        JObject members \<Rightarrow> JObject (fixedKeys code alice (insertStorage prefixes storage members))
      | _ \<Rightarrow> top')"

text \<open>The document with \<open>genesis.raw.top\<close> replaced.\<close>

definition putTop :: "json \<Rightarrow> (string \<times> json) list \<Rightarrow> (string \<times> json) list" where
  "putTop top' spec =
     (case map_of spec ''genesis'' of
        Some (JObject genesis) \<Rightarrow>
          (case map_of genesis ''raw'' of
             Some (JObject raw) \<Rightarrow>
               AList.update ''genesis''
                 (JObject (AList.update ''raw''
                    (JObject (AList.update ''top'' top' raw)) genesis)) spec
           | _ \<Rightarrow> spec)
      | _ \<Rightarrow> spec)"

text \<open>
  Lines 121-123: the name, the id and the \<open>protocolId\<close> of the fork. A member set to
  \<open>undefined\<close> is not written by \<open>JSON.stringify\<close>.
\<close>

definition setNames :: "originalSpec \<Rightarrow> (string \<times> json) list \<Rightarrow> (string \<times> json) list" where
  "setNames originalSpec forkedSpec =
     (let s1 = AList.update ''name'' (JString (specName originalSpec @ ''-fork'')) forkedSpec;
          s2 = AList.update ''id'' (JString (specId originalSpec @ ''-fork'')) s1
      in case specProtocolId originalSpec of
           None \<Rightarrow> AList.delete ''protocolId'' s2
         | Some protocolId \<Rightarrow> AList.update ''protocolId'' protocolId s2)"

text \<open>Lines 120-151: from the parsed \<open>fork.json\<close> to the document line 153 writes.\<close>

definition spliceMain ::
  "originalSpec \<Rightarrow> string list \<Rightarrow> (string \<times> json) list \<Rightarrow> string \<Rightarrow> string \<Rightarrow>
   (string \<times> json) list \<Rightarrow> error + (string \<times> json) list" where
  "spliceMain originalSpec prefixes storage code alice forkedSpec =
     (let s3 = setNames originalSpec forkedSpec
      in case getTop s3 of
           None \<Rightarrow> Inl TypeError
         | Some top' \<Rightarrow> Inr (putTop (spliceTop prefixes storage code alice top') s3))"

section \<open>Notions of the statements\<close>

text \<open>The two hex digits of a byte, and the hex text of a byte string.\<close>

definition hex2 :: "nat \<Rightarrow> string" where
  "hex2 i = padStart 2 ''0'' (toString16 i)"

definition hexBytes :: "char list \<Rightarrow> string" where
  "hexBytes bs = concat (map (\<lambda>b. hex2 (of_char b)) bs)"

text \<open>
  The node serves the keys of a chunk in the pages \<open>ps\<close>: the call with the cursor
  returns the first page, the call with the last key of a page returns the next one,
  every page but the last is full and the last is shorter.
\<close>

fun servesPages :: "remote \<Rightarrow> string \<Rightarrow> string \<Rightarrow> string option \<Rightarrow> string list list \<Rightarrow> bool" where
  "servesPages r at prefix cursor [] = False"
| "servesPages r at prefix cursor [p] =
     (state_getKeysPaged r prefix page cursor at = Inr p \<and> length p < page)"
| "servesPages r at prefix cursor (p # q # ps) =
     (state_getKeysPaged r prefix page cursor at = Inr p \<and> length p = page \<and>
      servesPages r at prefix (Some (last p)) (q # ps))"

text \<open>The bulk lookup answers for every non-empty page of \<open>ps\<close>.\<close>

definition servesValues :: "remote \<Rightarrow> string \<Rightarrow> string list list \<Rightarrow> bool" where
  "servesValues r at ps =
     list_all (\<lambda>p. p = [] \<or> (case state_queryStorageAt r p at of Inl e \<Rightarrow> False | Inr vals \<Rightarrow> True)) ps"

text \<open>The key-enumeration calls among the network calls of a state.\<close>

fun isKeysPaged :: "rpc \<Rightarrow> bool" where
  "isKeysPaged (KeysPaged prefix n cursor at) = True"
| "isKeysPaged c = False"

definition keyCalls :: "state \<Rightarrow> nat" where
  "keyCalls st = length (filter isKeysPaged (network st))"

definition ceilDiv :: "nat \<Rightarrow> nat \<Rightarrow> nat" where
  "ceilDiv n d = (n + d - 1) div d"

text \<open>The text of a batch: \<open>JSON.stringify(pairs).slice(1, -1)\<close>.\<close>

definition batchText :: "(string \<times> jsval) list \<Rightarrow> string" where
  "batchText pairs = slice (JSON_stringify pairs) 1 (- 1)"

text \<open>
  The stream holds \<open>[\<close> and the batches \<open>bs\<close>, none of them empty, with a comma between
  two of them, and \<open>separator\<close> says whether a batch was written.
\<close>

definition streamHolds :: "state \<Rightarrow> (string \<times> jsval) list list \<Rightarrow> bool" where
  "streamHolds st bs =
     (storageFile st = Some (''['' @ join '','' (map batchText bs)) \<and>
      separator st = (bs \<noteq> []) \<and> [] \<notin> set bs)"

text \<open>The keys that lines 131-150 delete or set.\<close>

definition fixedKeyNames :: "string \<Rightarrow> string list" where
  "fixedKeyNames alice =
     [''0x26aa394eea5630e07c48ae0c9558cef7f9cce9c888469bb1a0dceaa129672ef8'',
      ''0x3a636f6465'',
      ''0x5f3e4907f716ac89b6347d15ececedcaf7dad0317324aecae8744b87fc95f2f3''] @
     (if alice \<noteq> []
      then [''0x5c0d1176a568c1f92944340dbfed9e9c530ebca703c85910e7164cb7d1c9e47b'',
            ''0x3a2d6c9353500637d8f8e3e0fa0bb1c5ba7fb8745735dc3be2a2c61a72c39e78'',
            ''0xed25f63942de25ac5253ba64b5eb64d1ba7fb8745735dc3be2a2c61a72c39e78'',
            ''0xe2e62dd81c48a88f73b6f6463555fd8eba7fb8745735dc3be2a2c61a72c39e78'',
            ''0xaebd463ed9925c488c112434d61debc0ba7fb8745735dc3be2a2c61a72c39e78'']
      else [])"
text \<open>What a run over served pages leaves: the calls, the counter, the console.\<close>

definition pagesDone :: "remote \<Rightarrow> string \<Rightarrow> string list list \<Rightarrow> state \<Rightarrow> state \<Rightarrow> bool" where
  "pagesDone r at ps st st' \<longleftrightarrow>
     keyCalls st' = keyCalls st + length ps \<and>
     chunksFetched st' = chunksFetched st \<and>
     set (console st) \<subseteq> set (console st') \<and>
     (\<forall>q vals. q \<in> set ps \<and> q \<noteq> [] \<and> state_queryStorageAt r q at = Inr vals \<and>
        length vals \<noteq> length q \<longrightarrow> LengthsNotEqual (length vals) (length q) \<in> set (console st'))"

text \<open>
  What a step of a leaf call does to the stream, apart from the counters, the console
  and the network: the await it stops at next and the batches it writes (one or none).
\<close>

fun advance :: "remote \<Rightarrow> string \<Rightarrow> task \<Rightarrow> error + task \<times> (string \<times> jsval) list list" where
  "advance r at (AwaitFirstKeys prefix) =
     (case state_getKeysPaged r prefix page None at of
        Inl e \<Rightarrow> Inl e
      | Inr keys \<Rightarrow> Inr (if length keys > 0 then AwaitValues prefix keys else Finished, []))"
| "advance r at (AwaitValues prefix keys) =
     (case state_queryStorageAt r keys at of
        Inl e \<Rightarrow> Inl e
      | Inr vals \<Rightarrow>
          Inr (if length keys = page then AwaitNextKeys prefix (keys ! (length keys - 1))
               else Finished,
               [makePairs keys vals]))"
| "advance r at (AwaitNextKeys prefix cursor) =
     (case state_getKeysPaged r prefix page (Some cursor) at of
        Inl e \<Rightarrow> Inl e
      | Inr keys \<Rightarrow> Inr (if length keys > 0 then AwaitValues prefix keys else Finished, []))"
| "advance r at Finished = Inr (Finished, [])"

text \<open>The batches a leaf call writes from an await to its end, step by step.\<close>

inductive callWrites ::
  "remote \<Rightarrow> string \<Rightarrow> task \<Rightarrow> (string \<times> jsval) list list list \<Rightarrow> bool"
  for r :: remote and at :: string where
  ended: "callWrites r at Finished []"
| stepped: "t \<noteq> Finished \<Longrightarrow> advance r at t = Inr (t', b) \<Longrightarrow> callWrites r at t' bs \<Longrightarrow>
     callWrites r at t (b # bs)"

text \<open>A leaf call only waits for the values of a page that has keys.\<close>

fun waitsForKeys :: "task \<Rightarrow> bool" where
  "waitsForKeys (AwaitValues prefix keys) = (keys \<noteq> [])"
| "waitsForKeys t = True"

text \<open>The await of the leaf call after it has handled the page \<open>keys\<close>: line 184.\<close>

definition afterPage :: "string \<Rightarrow> string list \<Rightarrow> task" where
  "afterPage prefix keys =
     (if length keys = page then AwaitNextKeys prefix (keys ! (length keys - 1)) else Finished)"

text \<open>
  A run over the leaf chunks \<open>ls\<close> that returns has added to the stream, in some order,
  the batches that the leaf calls of \<open>ls\<close> write.
\<close>

definition leafWrites ::
  "remote \<Rightarrow> string \<Rightarrow> string list \<Rightarrow> state \<Rightarrow> error + state \<Rightarrow> bool" where
  "leafWrites r at ls st res \<longleftrightarrow>
     (\<forall>st' cs. res = Inr st' \<and> streamHolds st cs \<longrightarrow>
        (\<exists>Bs ds. list_all2 (\<lambda>l bs. callWrites r at (AwaitFirstKeys l) bs) ls Bs \<and>
           streamHolds st' (cs @ ds) \<and> mset ds = mset (concat (concat Bs))))"

text \<open>Line 205 after a leaf call's loop: the chunk is counted when the loop returns.\<close>

definition counted :: "(error + state) option \<Rightarrow> (error + state) option" where
  "counted res =
     map_option (map_sum id (\<lambda>st. st\<lparr>chunksFetched := chunksFetched st + 1\<rparr>)) res"

text \<open>
  The rest of a leaf call from one of its awaits when no other call runs beside it, in
  terms of the sequential code: the answer is taken as line 164, 170, 187 or 191 takes
  it, then lines 184-205 run.
\<close>

fun restOfCall :: "remote \<Rightarrow> string \<Rightarrow> task \<Rightarrow> state \<Rightarrow> (error + state) option" where
  "restOfCall r at (AwaitFirstKeys prefix) st =
     (case state_getKeysPaged r prefix page None at of
        Inl e \<Rightarrow> Some (Inl e)
      | Inr keys \<Rightarrow>
          if length keys > 0
          then (case fetchValues r at keys
                       (console_log (KeysFetched (total_keys_count st + length keys))
                          (st\<lparr>total_keys_count := total_keys_count st + length keys\<rparr>)) of
                  Inl e \<Rightarrow> Some (Inl e)
                | Inr st2 \<Rightarrow> counted (fetchLoop r at prefix keys st2))
          else counted (fetchLoop r at prefix keys st))"
| "restOfCall r at (AwaitValues prefix keys) st =
     (case state_queryStorageAt r keys at of
        Inl e \<Rightarrow> Some (Inl e)
      | Inr vals \<Rightarrow> counted (fetchLoop r at prefix keys (receiveValues keys vals st)))"
| "restOfCall r at (AwaitNextKeys prefix cursor) st =
     (case state_getKeysPaged r prefix page (Some cursor) at of
        Inl e \<Rightarrow> Some (Inl e)
      | Inr keys \<Rightarrow>
          if length keys > 0
          then (case fetchValues r at keys st of
                  Inl e \<Rightarrow> Some (Inl e)
                | Inr st2 \<Rightarrow> counted (fetchLoop r at prefix keys st2))
          else counted (fetchLoop r at prefix keys st))"
| "restOfCall r at Finished st = Some (Inr st)"

text \<open>
  Lines 184-187 and 205 after the page \<open>keys\<close> has been handled: the state at the next
  await of the call, or at its end.
\<close>

definition pageDone :: "string \<Rightarrow> string \<Rightarrow> string list \<Rightarrow> state \<Rightarrow> state" where
  "pageDone at prefix keys st =
     (if length keys = page
      then send (KeysPaged prefix page (Some (keys ! (length keys - 1))) at)
             (console_log (KeysFetched (total_keys_count st + length keys))
                (st\<lparr>total_keys_count := total_keys_count st + length keys\<rparr>))
      else st\<lparr>chunksFetched := chunksFetched st + 1\<rparr>)"

text \<open>A pair as the snapshot holds it: \<open>undefined\<close> is written as \<open>null\<close>.\<close>

definition asWritten :: "string \<times> jsval \<Rightarrow> string \<times> jsval" where
  "asWritten p = (fst p, case snd p of Undefined \<Rightarrow> Null | Null \<Rightarrow> Null | Str s \<Rightarrow> Str s)"

section \<open>Example runs\<close>

text \<open>The module-level variables when the script starts (lines 28-32), without a snapshot file.\<close>

definition initialState :: state where
  "initialState =
     \<lparr>storageFile = None, separator = False, chunksFetched = 0, total_keys_count = 0,
      console = [], network = []\<rparr>"

text \<open>A node with the one key \<open>0xcc01\<close>, which has no value.\<close>

definition nullRemote :: remote where
  "nullRemote =
     \<lparr>chain_getFinalizedHead = Inr ''0xb10c'',
      state_getKeysPaged = (\<lambda>prefix n cursor at.
         if startsWith ''0xcc01'' prefix \<and> cursor = None then Inr [''0xcc01''] else Inr []),
      state_queryStorageAt = (\<lambda>keys at. Inr (map (\<lambda>k. Null) keys))\<rparr>"

text \<open>A node with three keys under \<open>0xaa\<close> whose bulk lookup answers with two values only.\<close>

definition shortRemote :: remote where
  "shortRemote =
     \<lparr>chain_getFinalizedHead = Inr ''0xb10c'',
      state_getKeysPaged = (\<lambda>prefix n cursor at.
         if prefix = ''0xaa'' \<and> cursor = None then Inr [''0xaa01'', ''0xaa02'', ''0xaa03'']
         else Inr []),
      state_queryStorageAt = (\<lambda>keys at. Inr (take 2 (map (\<lambda>k. Str ''0x2a'') keys)))\<rparr>"

text \<open>A node without keys.\<close>

definition emptyRemote :: remote where
  "emptyRemote =
     \<lparr>chain_getFinalizedHead = Inr ''0xb10c'',
      state_getKeysPaged = (\<lambda>prefix n cursor at. Inr []),
      state_queryStorageAt = (\<lambda>keys at. Inr (map (\<lambda>k. Null) keys))\<rparr>"

text \<open>
  A node with the \<open>n\<close> keys \<open>0x000000\<close>, \<open>0x000001\<close>, ... under the prefix \<open>0x00\<close>, for
  \<open>n\<close> up to 1024: the first 512 are the first page, the rest is the page after key 511.
\<close>

definition exampleKey :: "nat \<Rightarrow> string" where
  "exampleKey i = ''0x00'' @ hex2 (i div 256) @ hex2 (i mod 256)"

definition pagesRemote :: "nat \<Rightarrow> remote" where
  "pagesRemote n =
     \<lparr>chain_getFinalizedHead = Inr ''0xb10c'',
      state_getKeysPaged = (\<lambda>prefix k cursor at.
         if prefix \<noteq> ''0x00'' then Inr []
         else if cursor = None then Inr (map exampleKey [0..<min n 512])
         else if cursor = Some (exampleKey 511) then Inr (map exampleKey [512..<min n 1024])
         else Inr []),
      state_queryStorageAt = (\<lambda>keys at. Inr (map (\<lambda>k. Str ''0x2a'') keys))\<rparr>"

text \<open>A small raw chain spec for the fork, and what is read of the original one.\<close>

definition devSpec :: "(string \<times> json) list" where
  "devSpec =
     [(''name'', JString ''Development''),
      (''id'', JString ''dev''),
      (''bootNodes'', JArray []),
      (''protocolId'', JNull),
      (''genesis'', JObject
         [(''raw'', JObject
            [(''top'', JObject [(''0x3a636f6465'', JString ''0x00'')]),
             (''childrenDefault'', JObject [])])])]"

definition liveSpec :: originalSpec where
  "liveSpec = \<lparr>specName = ''Crab'', specId = ''crab'', specProtocolId = Some (JString ''dar'')\<rparr>"

text \<open>
  A target spec with an empty \<open>genesis.raw.top\<close>, one whose \<open>top\<close> is a string, and the
  snapshot of two pairs.
\<close>

definition emptyTopSpec :: "(string \<times> json) list" where
  "emptyTopSpec =
     [(''name'', JString ''Development''),
      (''id'', JString ''dev''),
      (''genesis'', JObject [(''raw'', JObject [(''top'', JObject [])])])]"

definition stringTopSpec :: "(string \<times> json) list" where
  "stringTopSpec =
     [(''name'', JString ''Development''),
      (''id'', JString ''dev''),
      (''genesis'', JObject [(''raw'', JObject [(''top'', JString ''none'')])])]"

definition twoPairs :: "(string \<times> json) list" where
  "twoPairs = [(''0xAA01'', JString ''0x01''), (''0xBB01'', JString ''0x02'')]"
section \<open>Batches\<close>

lemma slice_inner: "slice (a # body @ [z]) 1 (- 1) = body"
  by (simp add: slice_def Let_def)

lemma batchText_eq: "batchText pairs = join '','' (map pairText pairs)"
  by (simp add: batchText_def JSON_stringify_def slice_inner)

lemma length_makePairs: "length (makePairs keys vals) = length keys"
  by (simp add: makePairs_def)

lemma nth_makePairs:
  "i < length keys \<Longrightarrow>
   makePairs keys vals ! i = (keys ! i, if i < length vals then vals ! i else Undefined)"
  by (simp add: makePairs_def)

lemma storageFile_writePairs:
  "storageFile (writePairs pairs st) =
     Some ((case storageFile st of None \<Rightarrow> [] | Some c \<Rightarrow> c) @
           (if separator st then '','' else []) @ batchText pairs)"
  by (simp add: writePairs_def stream_write_def batchText_def)

lemma storageFile_receiveValues:
  "storageFile (receiveValues keys vals st) =
     Some ((case storageFile st of None \<Rightarrow> [] | Some c \<Rightarrow> c) @
           (if separator st then '','' else []) @ batchText (makePairs keys vals))"
  by (simp add: receiveValues_def storageFile_writePairs console_log_def)

lemma fetchValues_Inr:
  "state_queryStorageAt r keys at = Inr vals \<Longrightarrow>
   fetchValues r at keys st = Inr (receiveValues keys vals (send (StorageAt keys at) st))"
  by (simp add: fetchValues_def)

lemma pairText_Null: \<open>pairText (k, Null) = ''['' @ quoteJSON k @ '',null]''\<close>
  by (simp add: pairText_def)

lemma pairText_Undefined: \<open>pairText (k, Undefined) = ''['' @ quoteJSON k @ '',null]''\<close>
  by (simp add: pairText_def)

lemma quoteJSON_cc01: \<open>quoteJSON ''0xcc01'' = ''"0xcc01"''\<close>
  by (simp add: quoteJSON_def escapeChar_def)

lemma quoteJSON_examples:
  \<open>quoteJSON ''0xaa01'' = ''"0xaa01"''\<close>
  \<open>quoteJSON ''0xaa02'' = ''"0xaa02"''\<close>
  \<open>quoteJSON ''0xaa03'' = ''"0xaa03"''\<close>
  \<open>quoteJSON ''0x2a'' = ''"0x2a"''\<close>
  by (simp_all add: quoteJSON_def escapeChar_def)

section \<open>Pages\<close>

lemma console_log_fields [simp]:
  "storageFile (console_log m st) = storageFile st"
  "separator (console_log m st) = separator st"
  "chunksFetched (console_log m st) = chunksFetched st"
  "total_keys_count (console_log m st) = total_keys_count st"
  "console (console_log m st) = console st @ [m]"
  "network (console_log m st) = network st"
  by (simp_all add: console_log_def)

lemma send_fields [simp]:
  "storageFile (send c st) = storageFile st"
  "separator (send c st) = separator st"
  "chunksFetched (send c st) = chunksFetched st"
  "total_keys_count (send c st) = total_keys_count st"
  "console (send c st) = console st"
  "network (send c st) = network st @ [c]"
  by (simp_all add: send_def)

lemma stream_write_fields [simp]:
  "separator (stream_write s st) = separator st"
  "chunksFetched (stream_write s st) = chunksFetched st"
  "total_keys_count (stream_write s st) = total_keys_count st"
  "console (stream_write s st) = console st"
  "network (stream_write s st) = network st"
  by (simp_all add: stream_write_def)

lemma writePairs_fields [simp]:
  "separator (writePairs pairs st) = True"
  "chunksFetched (writePairs pairs st) = chunksFetched st"
  "total_keys_count (writePairs pairs st) = total_keys_count st"
  "console (writePairs pairs st) = console st"
  "network (writePairs pairs st) = network st"
  by (simp_all add: writePairs_def)

lemma receiveValues_fields [simp]:
  "separator (receiveValues keys vals st) = True"
  "chunksFetched (receiveValues keys vals st) = chunksFetched st"
  "total_keys_count (receiveValues keys vals st) = total_keys_count st"
  "network (receiveValues keys vals st) = network st"
  by (simp_all add: receiveValues_def)

lemma console_receiveValues:
  "console (receiveValues keys vals st) =
     console st @ (if length vals \<noteq> length keys then [LengthsNotEqual (length vals) (length keys)] else [])"
  by (simp add: receiveValues_def)

lemma keyCalls_simps [simp]:
  "keyCalls (console_log m st) = keyCalls st"
  "keyCalls (send (KeysPaged prefix n cursor at) st) = keyCalls st + 1"
  "keyCalls (send (StorageAt keys at) st) = keyCalls st"
  "keyCalls (send FinalizedHead st) = keyCalls st"
  "keyCalls (stream_write s st) = keyCalls st"
  "keyCalls (receiveValues keys vals st) = keyCalls st"
  "keyCalls (st\<lparr>total_keys_count := n'\<rparr>) = keyCalls st"
  "keyCalls (st\<lparr>chunksFetched := c'\<rparr>) = keyCalls st"
  by (simp_all add: keyCalls_def)

lemma page_pos: "0 < page"
  by (simp add: page_def)

lemma fetchValues_served:
  assumes "servesValues r at [q]" "q \<noteq> []"
  shows "\<exists>vals. state_queryStorageAt r q at = Inr vals \<and>
     fetchValues r at q st = Inr (receiveValues q vals (send (StorageAt q at) st))"
  using assms by (auto simp: servesValues_def fetchValues_def split: sum.splits)

lemma fetchLoop_pages:
  assumes "servesPages r at prefix cursor (p # ps)" and "servesValues r at ps"
  shows "\<exists>st'. fetchLoop r at prefix p st = Some (Inr st') \<and> pagesDone r at ps st st'"
  using assms
proof (induction ps arbitrary: p cursor st)
  case Nil
  then show ?case
    by (subst fetchLoop.simps) (simp add: pagesDone_def)
next
  case (Cons q qs)
  from Cons.prems have full: "length p = page"
    and nxt: "servesPages r at prefix (Some (last p)) (q # qs)"
    and vq: "servesValues r at [q]" and vqs: "servesValues r at qs"
    by (simp_all add: servesValues_def)
  from full page_pos have p: "p \<noteq> []" by auto
  then have cur: "p ! (length p - Suc 0) = last p"
    by (simp add: last_conv_nth)
  from nxt have keys: "state_getKeysPaged r prefix page (Some (last p)) at = Inr q"
    by (cases qs) simp_all
  define st2 where "st2 = send (KeysPaged prefix page (Some (last p)) at)
     (console_log (KeysFetched (total_keys_count st + length p))
        (st\<lparr>total_keys_count := total_keys_count st + length p\<rparr>))"
  obtain st3 where np: "nextPage r at prefix p st = Inr (q, st3)"
    and st3: "pagesDone r at [q] st st3"
  proof (cases "q = []")
    case True
    have "nextPage r at prefix p st = Inr (q, st2)"
      by (simp add: nextPage_def Let_def cur keys True st2_def)
    moreover have "pagesDone r at [q] st st2"
      by (auto simp: pagesDone_def st2_def True)
    ultimately show ?thesis by (rule that)
  next
    case False
    from fetchValues_served [OF vq False] obtain vals
      where v: "state_queryStorageAt r q at = Inr vals"
        and f: "fetchValues r at q st2 = Inr (receiveValues q vals (send (StorageAt q at) st2))"
      by blast
    have "nextPage r at prefix p st = Inr (q, receiveValues q vals (send (StorageAt q at) st2))"
      using False by (simp add: nextPage_def Let_def cur keys f [unfolded st2_def] st2_def)
    moreover have "pagesDone r at [q] st (receiveValues q vals (send (StorageAt q at) st2))"
      using v by (auto simp: pagesDone_def st2_def console_receiveValues)
    ultimately show ?thesis by (rule that)
  qed
  from Cons.IH [OF nxt vqs, of st3] obtain st'
    where loop: "fetchLoop r at prefix q st3 = Some (Inr st')" and dn: "pagesDone r at qs st3 st'"
    by blast
  have "fetchLoop r at prefix p st = Some (Inr st')"
    by (subst fetchLoop.simps) (simp add: full np loop)
  moreover have "pagesDone r at (q # qs) st st'"
    using st3 dn by (auto simp: pagesDone_def)
  ultimately show ?case by blast
qed

lemma fetchBase_pages:
  assumes "servesPages r at prefix None ps" and "servesValues r at ps"
  shows "\<exists>st'. fetchBase r at prefix st = Some (Inr st') \<and>
     pagesDone r at ps st (st'\<lparr>chunksFetched := chunksFetched st\<rparr>) \<and>
     chunksFetched st' = chunksFetched st + 1"
proof -
  from assms(1) obtain p qs where ps: "ps = p # qs"
    by (cases ps) simp_all
  from assms(1) have keys: "state_getKeysPaged r prefix page None at = Inr p"
    unfolding ps by (cases qs) simp_all
  from assms(2) have vp: "servesValues r at [p]" and vqs: "servesValues r at qs"
    by (simp_all add: ps servesValues_def)
  define st1 where "st1 = send (KeysPaged prefix page None at) st"
  obtain st2 where fp: "firstPage r at prefix st = Inr (p, st2)"
    and st2: "pagesDone r at [p] st st2"
  proof (cases "p = []")
    case True
    have "firstPage r at prefix st = Inr (p, st1)"
      by (simp add: firstPage_def Let_def keys True st1_def)
    moreover have "pagesDone r at [p] st st1"
      by (auto simp: pagesDone_def st1_def True)
    ultimately show ?thesis by (rule that)
  next
    case False
    define st1' where "st1' = console_log (KeysFetched (total_keys_count st1 + length p))
       (st1\<lparr>total_keys_count := total_keys_count st1 + length p\<rparr>)"
    from fetchValues_served [OF vp False] obtain vals
      where v: "state_queryStorageAt r p at = Inr vals"
        and f: "fetchValues r at p st1' = Inr (receiveValues p vals (send (StorageAt p at) st1'))"
      by blast
    have "firstPage r at prefix st = Inr (p, receiveValues p vals (send (StorageAt p at) st1'))"
      using False f by (simp add: firstPage_def Let_def keys st1_def st1'_def)
    moreover have "pagesDone r at [p] st (receiveValues p vals (send (StorageAt p at) st1'))"
      using v by (auto simp: pagesDone_def st1_def st1'_def console_receiveValues)
    ultimately show ?thesis by (rule that)
  qed
  from fetchLoop_pages [OF assms(1) [unfolded ps] vqs, of st2] obtain st3
    where loop: "fetchLoop r at prefix p st2 = Some (Inr st3)" and dn: "pagesDone r at qs st2 st3"
    by blast
  have "fetchBase r at prefix st = Some (Inr (st3\<lparr>chunksFetched := chunksFetched st3 + 1\<rparr>))"
    by (simp add: fetchBase_def fp loop)
  moreover have "pagesDone r at ps st (st3\<lparr>chunksFetched := chunksFetched st\<rparr>)"
    using st2 dn by (auto simp: pagesDone_def ps keyCalls_def)
  moreover have "chunksFetched st3 = chunksFetched st"
    using st2 dn by (simp add: pagesDone_def)
  ultimately show ?thesis by simp
qed

lemma servesPages_count:
  "servesPages r at prefix cursor ps \<Longrightarrow> length ps = length (concat ps) div page + 1"
proof (induction r at prefix cursor ps rule: servesPages.induct)
  case (3 r at prefix cursor p q ps)
  then have "length (concat (p # q # ps)) = page + length (concat (q # ps))"
    by simp
  moreover have "(page + n) div page = Suc (n div page)" for n
    by (simp add: page_def)
  ultimately show ?case
    using 3 by (simp del: concat.simps)
qed simp_all

lemma ceilDiv_eq: "0 < d \<Longrightarrow> \<not> d dvd n \<Longrightarrow> ceilDiv n d = n div d + 1"
proof -
  assume d: "0 < d" and nd: "\<not> d dvd n"
  define x where "x = d * (n div d)"
  have m: "0 < n mod d" "n mod d < d"
    using d nd by (simp_all add: dvd_eq_mod_eq_0)
  have n: "n = x + n mod d"
    by (simp add: x_def)
  have "d * (n div d + 1) \<le> n + d - 1"
    using m n by (simp add: x_def [symmetric] distrib_left)
  moreover have "n + d - 1 < d * Suc (n div d + 1)"
    using m n by (simp add: x_def [symmetric] distrib_left)
  ultimately show ?thesis
    unfolding ceilDiv_def by (rule div_nat_eqI)
qed

lemma ceilDiv_dvd: "0 < d \<Longrightarrow> d dvd n \<Longrightarrow> ceilDiv n d = n div d"
proof -
  assume d: "0 < d" and nd: "d dvd n"
  have x: "d * (n div d) = n"
    using nd by simp
  have "d * (n div d) \<le> n + d - 1"
    unfolding x using d by simp
  moreover have "n + d - 1 < d * Suc (n div d)"
    unfolding mult_Suc_right x using d by simp
  ultimately show ?thesis
    unfolding ceilDiv_def by (rule div_nat_eqI)
qed

section \<open>Hex digits and prefixes\<close>

lemma hexDigit_code:
  "\<forall>d \<in> set [0..<16]. (of_char (hexDigit d) :: nat) = (if d < 10 then 48 + d else 87 + d)"
  by code_simp

lemma of_char_hexDigit:
  "d < 16 \<Longrightarrow> (of_char (hexDigit d) :: nat) = (if d < 10 then 48 + d else 87 + d)"
  using hexDigit_code by simp

lemma hexDigit_less: "i < 16 \<Longrightarrow> j < 16 \<Longrightarrow> hexDigit i < hexDigit j \<longleftrightarrow> i < j"
  by (simp add: less_char_def of_char_hexDigit)

lemma hexDigit_inj: "i < 16 \<Longrightarrow> j < 16 \<Longrightarrow> hexDigit i = hexDigit j \<longleftrightarrow> i = j"
  by (metis hexDigit_less less_irrefl nat_neq_iff)

lemma hexDigit_0: "hexDigit 0 = CHR ''0''"
  by (simp add: hexDigit_def)

lemma hex2_digits: "i < 256 \<Longrightarrow> hex2 i = [hexDigit (i div 16), hexDigit (i mod 16)]"
proof (cases "i < 16")
  case True
  then show ?thesis by (simp add: hex2_def padStart_def hexDigit_0)
next
  case False
  assume "i < 256"
  then have "i div 16 < 16" by simp
  with False show ?thesis
    by (simp add: hex2_def padStart_def)
qed

lemma length_hex2: "i < 256 \<Longrightarrow> length (hex2 i) = 2"
  by (simp add: hex2_digits)

lemma divmod16_less:
  fixes a b c d :: nat
  assumes "b < 16" "d < 16"
  shows "16 * a + b < 16 * c + d \<longleftrightarrow> a < c \<or> a = c \<and> b < d"
  using assms by arith

lemma less_divmod16:
  "i < j \<longleftrightarrow> i div 16 < j div 16 \<or> i div 16 = j div 16 \<and> i mod 16 < j mod (16 :: nat)"
proof -
  have m: "i mod 16 < 16" "j mod 16 < 16" by simp_all
  have "i < j \<longleftrightarrow> 16 * (i div 16) + i mod 16 < 16 * (j div 16) + j mod 16"
    by simp
  also have "\<dots> \<longleftrightarrow> i div 16 < j div 16 \<or> i div 16 = j div 16 \<and> i mod 16 < j mod 16"
    by (rule divmod16_less [OF m])
  finally show ?thesis .
qed

lemma hex2_append_less:
  assumes "i < 256" "j < 256" "i < j"
  shows "hex2 i @ x < hex2 j @ y"
proof -
  from assms have d: "i div 16 < 16" "j div 16 < 16" by simp_all
  have m: "i mod 16 < 16" "j mod 16 < 16" by simp_all
  from assms(3) have "i div 16 < j div 16 \<or> i div 16 = j div 16 \<and> i mod 16 < j mod 16"
    by (simp add: less_divmod16 [of i j])
  with assms d m show ?thesis
    by (auto simp: hex2_digits hexDigit_less)
qed

lemma hex2_inj: "i < 256 \<Longrightarrow> j < 256 \<Longrightarrow> hex2 i = hex2 j \<Longrightarrow> i = j"
proof (rule ccontr)
  assume b: "i < 256" "j < 256" and e: "hex2 i = hex2 j" and n: "i \<noteq> j"
  then consider "i < j" | "j < i" by arith
  then show False
  proof cases
    case 1
    from hex2_append_less [OF b 1, of "[]" "[]"] e show False by simp
  next
    case 2
    from hex2_append_less [OF b(2,1) 2, of "[]" "[]"] e show False by simp
  qed
qed

lemma append_less_append: "(p @ a < p @ b) = (a < (b :: string))"
  by (induction p) simp_all

lemma childPrefix_eq: "childPrefix prefix i = prefix @ hex2 i"
  by (simp add: childPrefix_def hex2_def)

lemma of_char_less_256: "(of_char (b :: char) :: nat) < 256"
  by (metis of_char_mod_256 mod_less_divisor zero_less_numeral)

lemma hexBytes_Cons: "hexBytes (b # bs) = hex2 (of_char b) @ hexBytes bs"
  by (simp add: hexBytes_def)

lemma hexBytes_Nil: "hexBytes [] = []"
  by (simp add: hexBytes_def)

lemma length_hexBytes: "length (hexBytes bs) = 2 * length bs"
  by (induction bs) (simp_all add: hexBytes_Nil hexBytes_Cons length_hex2 of_char_less_256)

lemma hexBytes_inj: "length bs = length cs \<Longrightarrow> hexBytes bs = hexBytes cs \<Longrightarrow> bs = cs"
proof (induction bs cs rule: list_induct2)
  case Nil
  then show ?case by simp
next
  case (Cons b bs c cs)
  from Cons.prems have "hex2 (of_char b) = hex2 (of_char c) \<and> hexBytes bs = hexBytes cs"
    by (simp add: hexBytes_Cons length_hex2 of_char_less_256)
  then have "(of_char b :: nat) = of_char c" and "hexBytes bs = hexBytes cs"
    using hex2_inj [OF of_char_less_256 of_char_less_256] by blast+
  with Cons.IH show ?case by simp
qed

lemma take_hexBytes: "take (2 * d) (hexBytes bs) = hexBytes (take d bs)"
proof (induction bs arbitrary: d)
  case Nil
  then show ?case by (simp add: hexBytes_Nil)
next
  case (Cons b bs)
  show ?case
  proof (cases d)
    case 0
    then show ?thesis by (simp add: hexBytes_Nil)
  next
    case (Suc e)
    have "take (2 * Suc e) (hex2 (of_char b) @ hexBytes bs) = hex2 (of_char b) @ take (2 * e) (hexBytes bs)"
      by (simp add: length_hex2 of_char_less_256)
    with Cons.IH [of e] Suc show ?thesis
      by (simp add: hexBytes_Cons)
  qed
qed

section \<open>Leaf chunks\<close>

declare leafChunks.simps [simp del] fetchChunks.simps [simp del]

lemma leafChunks_0: "leafChunks prefix 0 = [prefix]"
  by (simp add: leafChunks.simps)

lemma leafChunks_Suc:
  "leafChunks prefix (int (Suc d)) =
     concat (map (\<lambda>i. leafChunks (childPrefix prefix i) (int d)) [0..<256])"
  by (subst leafChunks.simps) simp

lemma leafChunks_Suc':
  "leafChunks prefix (1 + int d) =
     concat (map (\<lambda>i. leafChunks (childPrefix prefix i) (int d)) [0..<256])"
  using leafChunks_Suc [of prefix d] by simp

lemma length_leafChunks: "length (leafChunks prefix (int d)) = 256 ^ d"
proof (induction d arbitrary: prefix)
  case 0
  then show ?case by (simp add: leafChunks_0)
next
  case (Suc d)
  have "map length (map (\<lambda>i. leafChunks (childPrefix prefix i) (int d)) [0..<256]) =
        map (\<lambda>i. 256 ^ d) [0..<256]"
    by (simp add: Suc.IH)
  then show ?case
    by (simp add: leafChunks_Suc' length_concat sum_list_triv del: map_map)
qed

lemma set_leafChunks:
  "set (leafChunks prefix (int d)) = (\<lambda>bs. prefix @ hexBytes bs) ` {bs. length bs = d}"
proof (induction d arbitrary: prefix)
  case 0
  then show ?case by (simp add: leafChunks_0 hexBytes_Nil)
next
  case (Suc d)
  have "set (leafChunks prefix (int (Suc d))) =
        (\<Union>i \<in> {0..<256}. (\<lambda>bs. (prefix @ hex2 i) @ hexBytes bs) ` {bs. length bs = d})"
    by (simp add: leafChunks_Suc' Suc.IH childPrefix_eq)
  also have "\<dots> = (\<lambda>bs. prefix @ hexBytes bs) ` {bs. length bs = Suc d}"
  proof (intro set_eqI iffI)
    fix x
    assume "x \<in> (\<Union>i \<in> {0..<256}. (\<lambda>bs. (prefix @ hex2 i) @ hexBytes bs) ` {bs. length bs = d})"
    then obtain i bs where i: "i < 256" and bs: "length bs = d"
      and x: "x = (prefix @ hex2 i) @ hexBytes bs"
      by auto
    from i have "(of_char (char_of i) :: nat) = i" by simp
    then have "x = prefix @ hexBytes (char_of i # bs)"
      by (simp add: x hexBytes_Cons)
    with bs show "x \<in> (\<lambda>bs. prefix @ hexBytes bs) ` {bs. length bs = Suc d}"
      by (intro image_eqI [where x = "char_of i # bs"]) simp_all
  next
    fix x
    assume "x \<in> (\<lambda>bs. prefix @ hexBytes bs) ` {bs. length bs = Suc d}"
    then obtain cs where cs: "length cs = Suc d" and x: "x = prefix @ hexBytes cs"
      by auto
    from cs obtain b bs where c: "cs = b # bs" and bs: "length bs = d"
      by (cases cs) auto
    have "x = (prefix @ hex2 (of_char b)) @ hexBytes bs"
      by (simp add: x c hexBytes_Cons)
    with bs of_char_less_256 [of b]
    show "x \<in> (\<Union>i \<in> {0..<256}. (\<lambda>bs. (prefix @ hex2 i) @ hexBytes bs) ` {bs. length bs = d})"
      by auto
  qed
  finally show ?case .
qed

lemma sorted_wrt_concat_upt:
  assumes "\<And>i. i < n \<Longrightarrow> sorted_wrt P (f i)"
    and "\<And>i j x y. i < j \<Longrightarrow> j < n \<Longrightarrow> x \<in> set (f i) \<Longrightarrow> y \<in> set (f j) \<Longrightarrow> P x y"
  shows "sorted_wrt P (concat (map f [0..<n]))"
  using assms
proof (induction n)
  case 0
  then show ?case by simp
next
  case (Suc n)
  have "sorted_wrt P (concat (map f [0..<n]))"
    by (rule Suc.IH) (auto intro: Suc.prems)
  moreover have "sorted_wrt P (f n)"
    by (rule Suc.prems) simp
  moreover have "P x y" if "x \<in> set (concat (map f [0..<n]))" "y \<in> set (f n)" for x y
    using that Suc.prems(2) [of _ n x y] by auto
  ultimately show ?case
    by (simp add: sorted_wrt_append)
qed

lemma sorted_children: "sorted_wrt (<) (map (childPrefix prefix) [0..<256])"
proof -
  have "childPrefix prefix i < childPrefix prefix j" if "i < j" "j < 256" for i j
    using that hex2_append_less [of i j "[]" "[]"]
    by (simp add: childPrefix_eq append_less_append)
  then show ?thesis
    by (simp add: sorted_wrt_map sorted_wrt_iff_nth_less)
qed

lemma sorted_leafChunks: "sorted_wrt (<) (leafChunks prefix (int d))"
proof (induction d arbitrary: prefix)
  case 0
  then show ?case by (simp add: leafChunks_0)
next
  case (Suc d)
  have cross: "x < y"
    if "i < j" "j < 256" "x \<in> set (leafChunks (childPrefix prefix i) (int d))"
      "y \<in> set (leafChunks (childPrefix prefix j) (int d))" for i j x y
  proof -
    from that(3) obtain bs where x: "x = prefix @ hex2 i @ hexBytes bs"
      unfolding set_leafChunks childPrefix_eq by auto
    from that(4) obtain cs where y: "y = prefix @ hex2 j @ hexBytes cs"
      unfolding set_leafChunks childPrefix_eq by auto
    from that(1,2) have "hex2 i @ hexBytes bs < hex2 j @ hexBytes cs"
      by (intro hex2_append_less) simp_all
    then show ?thesis
      by (simp add: x y append_less_append)
  qed
  show ?case
    unfolding leafChunks_Suc
  proof (rule sorted_wrt_concat_upt)
    fix i :: nat
    show "sorted_wrt (<) (leafChunks (childPrefix prefix i) (int d))"
      by (rule Suc.IH)
  next
    fix i j :: nat and x y
    assume "i < j" "j < 256" "x \<in> set (leafChunks (childPrefix prefix i) (int d))"
      "y \<in> set (leafChunks (childPrefix prefix j) (int d))"
    then show "x < y" by (rule cross)
  qed
qed

lemma distinct_leafChunks: "distinct (leafChunks prefix (int d))"
  using sorted_leafChunks [of prefix d] by (simp add: strict_sorted_iff)

lemma leaf_of_key:
  assumes "leaf \<in> set (leafChunks prefix (int d))"
    and "startsWith (prefix @ hexBytes bs) leaf"
  shows "d \<le> length bs \<and> leaf = prefix @ hexBytes (take d bs)"
proof -
  from assms(1) obtain cs where cs: "length cs = d" and leaf: "leaf = prefix @ hexBytes cs"
    unfolding set_leafChunks by auto
  have len: "length leaf = length prefix + 2 * d"
    unfolding leaf by (simp add: length_hexBytes cs)
  have "take (length prefix + 2 * d) (prefix @ hexBytes bs) = prefix @ take (2 * d) (hexBytes bs)"
    by simp
  moreover from assms(2) have "take (length prefix + 2 * d) (prefix @ hexBytes bs) = prefix @ hexBytes cs"
    unfolding startsWith_def len unfolding leaf .
  ultimately have "prefix @ take (2 * d) (hexBytes bs) = prefix @ hexBytes cs"
    by (rule trans [OF sym])
  then have t: "hexBytes (take d bs) = hexBytes cs"
    unfolding take_hexBytes by (rule same_append_eq [THEN iffD1])
  have "length (hexBytes (take d bs)) = length (hexBytes cs)"
    unfolding t ..
  then have "min (length bs) d = d"
    unfolding length_hexBytes cs by simp
  then have d: "d \<le> length bs"
    by arith
  then have "length (take d bs) = length cs"
    unfolding cs by simp
  then have "take d bs = cs"
    using t by (rule hexBytes_inj)
  with d leaf show ?thesis by simp
qed

lemma key_in_leaf:
  assumes "d \<le> length bs"
  shows "prefix @ hexBytes (take d bs) \<in> set (leafChunks prefix (int d)) \<and>
         startsWith (prefix @ hexBytes bs) (prefix @ hexBytes (take d bs))"
proof -
  have "take (2 * d) (hexBytes bs) = hexBytes (take d bs)"
    by (rule take_hexBytes)
  moreover have "length (hexBytes (take d bs)) = 2 * d"
    using assms by (simp add: length_hexBytes)
  ultimately have "startsWith (prefix @ hexBytes bs) (prefix @ hexBytes (take d bs))"
    by (simp add: startsWith_def)
  moreover have "prefix @ hexBytes (take d bs) \<in> set (leafChunks prefix (int d))"
    unfolding set_leafChunks using assms by (intro image_eqI [where x = "take d bs"]) simp_all
  ultimately show ?thesis by simp
qed

lemma one_leaf_per_key:
  assumes "d \<le> length bs"
  shows "\<exists>!i. i < 256 ^ d \<and> startsWith (prefix @ hexBytes bs) (leafChunks prefix (int d) ! i)"
proof -
  define ls where "ls = leafChunks prefix (int d)"
  define l where "l = prefix @ hexBytes (take d bs)"
  define key where "key = prefix @ hexBytes bs"
  have len: "length ls = 256 ^ d"
    unfolding ls_def by (rule length_leafChunks)
  have dist: "distinct ls"
    unfolding ls_def by (rule distinct_leafChunks)
  from key_in_leaf [OF assms, of prefix] have "l \<in> set ls" and s: "startsWith key l"
    unfolding ls_def l_def key_def by blast+
  then obtain i where i: "i < length ls" "ls ! i = l"
    unfolding in_set_conv_nth by blast
  have u: "j = i" if "j < length ls" "startsWith key (ls ! j)" for j
  proof -
    from that(1) have "ls ! j \<in> set ls" by (rule nth_mem)
    with that(2) have "ls ! j = l"
      using leaf_of_key [of "ls ! j" prefix d bs] unfolding ls_def l_def key_def by blast
    with i that(1) dist show ?thesis
      by (metis nth_eq_iff_index_eq)
  qed
  have "\<exists>!i. i < length ls \<and> startsWith key (ls ! i)"
  proof (rule ex1I [of _ i])
    show "i < length ls \<and> startsWith key (ls ! i)"
      using i s by simp
  next
    fix j assume "j < length ls \<and> startsWith key (ls ! j)"
    then show "j = i" using u by blast
  qed
  then show ?thesis
    unfolding len unfolding ls_def key_def .
qed

lemma forAwait_append:
  "forAwait f (xs @ ys) st =
     (case forAwait f xs st of
        None \<Rightarrow> None
      | Some (Inl e) \<Rightarrow> Some (Inl e)
      | Some (Inr st') \<Rightarrow> forAwait f ys st')"
  by (induction xs arbitrary: st) (simp_all split: option.splits sum.splits)

lemma forAwait_concat:
  "forAwait (\<lambda>i. forAwait f (g i)) js st = forAwait f (concat (map g js)) st"
  by (induction js arbitrary: st) (simp_all add: forAwait_append split: option.splits sum.splits)

lemma forAwait_single: "forAwait f [x] st = f x st"
  by (simp split: option.splits sum.splits)

lemma fetchChunks_leafChunks:
  "fetchChunks r at prefix levelsRemaining st =
     forAwait (fetchBase r at) (leafChunks prefix levelsRemaining) st"
proof (induction r at prefix levelsRemaining st rule: fetchChunks.induct)
  case (1 r at prefix levelsRemaining st)
  show ?case
  proof (cases "levelsRemaining \<le> 0")
    case True
    then have "leafChunks prefix levelsRemaining = [prefix]"
      by (simp add: leafChunks.simps [of prefix levelsRemaining])
    with True show ?thesis
      by (simp add: fetchChunks.simps [of r at prefix levelsRemaining] forAwait_single
          del: forAwait.simps)
  next
    case False
    have "forAwait (\<lambda>i. fetchChunks r at (childPrefix prefix i) (levelsRemaining - 1)) [0..<256] st =
          forAwait (\<lambda>i. forAwait (fetchBase r at) (leafChunks (childPrefix prefix i) (levelsRemaining - 1)))
            [0..<256] st"
      by (rule forAwait_cong) (simp_all add: "1.IH" [OF False])
    with False show ?thesis
      by (simp add: fetchChunks.simps [of r at prefix levelsRemaining]
          leafChunks.simps [of prefix levelsRemaining] forAwait_concat)
  qed
qed

lemma leafChunks_1: "leafChunks prefix 1 = map (childPrefix prefix) [0..<256]"
proof -
  have "concat (map (\<lambda>i. [f i]) xs) = map f xs" for f :: "nat \<Rightarrow> string" and xs
    by (induction xs) simp_all
  then show ?thesis
    using leafChunks_Suc [of prefix 0] by (simp add: leafChunks_0)
qed

section \<open>The stream\<close>

lemma join_snoc: "xs \<noteq> [] \<Longrightarrow> join sep (xs @ [x]) = join sep xs @ sep @ x"
  by (induction sep xs rule: join.induct) simp_all

lemma join_append:
  "xs \<noteq> [] \<Longrightarrow> ys \<noteq> [] \<Longrightarrow> join sep (xs @ ys) = join sep xs @ sep @ join sep ys"
proof (induction sep xs rule: join.induct)
  case (2 sep x)
  then show ?case by (cases ys) simp_all
qed simp_all

lemma join_concat:
  "[] \<notin> set bs \<Longrightarrow> join sep (map (\<lambda>b. join sep (map f b)) bs) = join sep (map f (concat bs))"
proof (induction bs rule: rev_induct)
  case Nil
  then show ?case by simp
next
  case (snoc b bs)
  show ?case
  proof (cases "bs = []")
    case True
    then show ?thesis by simp
  next
    case False
    then obtain c where c: "c \<in> set bs" by (cases bs) auto
    with snoc.prems have "c \<noteq> []" by auto
    with c have "concat bs \<noteq> []" by auto
    moreover from snoc.prems have "b \<noteq> []" by auto
    ultimately have "concat bs \<noteq> []" "b \<noteq> []" by simp_all
    with False snoc show ?thesis
      by (simp add: join_snoc join_append)
  qed
qed

lemma stringify_batches:
  "[] \<notin> set bs \<Longrightarrow> ''['' @ join '','' (map batchText bs) @ '']'' = JSON_stringify (concat bs)"
proof -
  assume "[] \<notin> set bs"
  from join_concat [OF this, of "'',''" pairText]
  have "join '','' (map batchText bs) = join '','' (map pairText (concat bs))"
    by (simp add: batchText_eq [abs_def])
  then show ?thesis
    by (simp add: JSON_stringify_def)
qed

lemma streamHolds_fields [simp]:
  "streamHolds (console_log m st) bs = streamHolds st bs"
  "streamHolds (send c st) bs = streamHolds st bs"
  "streamHolds (st\<lparr>total_keys_count := n\<rparr>) bs = streamHolds st bs"
  "streamHolds (st\<lparr>chunksFetched := k\<rparr>) bs = streamHolds st bs"
  by (simp_all add: streamHolds_def)

lemma streamHolds_writePairs:
  assumes "streamHolds st bs" and "pairs \<noteq> []"
  shows "streamHolds (writePairs pairs st) (bs @ [pairs])"
proof (cases "bs = []")
  case True
  with assms show ?thesis
    by (simp add: streamHolds_def storageFile_writePairs)
next
  case False
  then have "map batchText bs \<noteq> []" by simp
  from join_snoc [OF this, of "'',''" "batchText pairs"] assms False show ?thesis
    by (simp add: streamHolds_def storageFile_writePairs)
qed

lemma streamHolds_receiveValues:
  assumes "streamHolds st bs" and "keys \<noteq> []"
  shows "streamHolds (receiveValues keys vals st) (bs @ [makePairs keys vals])"
proof -
  from assms(2) have "makePairs keys vals \<noteq> []"
    using length_makePairs [of keys vals] by auto
  with assms(1) show ?thesis
    unfolding receiveValues_def by (intro streamHolds_writePairs) simp_all
qed

lemma resume_advance:
  assumes "waitsForKeys t"
  shows "(\<forall>e. advance r at t = Inl e \<longrightarrow> resume r at t st = Inl e) \<and>
     (\<forall>t' b. advance r at t = Inr (t', b) \<longrightarrow>
        waitsForKeys t' \<and>
        (\<exists>st'. resume r at t st = Inr (t', st') \<and>
           (\<forall>cs. streamHolds st cs \<longrightarrow> streamHolds st' (cs @ b))))"
proof (cases t)
  case (AwaitFirstKeys prefix)
  then show ?thesis
    by (auto split: sum.splits)
next
  case (AwaitValues prefix keys)
  with assms have k: "keys \<noteq> []" by simp
  show ?thesis
    unfolding AwaitValues
    by (auto simp: Let_def streamHolds_receiveValues [OF _ k] split: sum.splits)
next
  case (AwaitNextKeys prefix cursor)
  then show ?thesis
    by (auto split: sum.splits)
next
  case Finished
  then show ?thesis by simp
qed

lemma resume_Inr:
  assumes "waitsForKeys t" and "resume r at t st = Inr (t', st')"
  shows "\<exists>b. advance r at t = Inr (t', b) \<and> waitsForKeys t' \<and>
     (\<forall>cs. streamHolds st cs \<longrightarrow> streamHolds st' (cs @ b))"
proof (cases "advance r at t")
  case (Inl e)
  with resume_advance [OF assms(1), of r at st] assms(2) show ?thesis by simp
next
  case (Inr p)
  obtain t1 b where p: "p = (t1, b)" by (cases p)
  from resume_advance [OF assms(1), of r at st] Inr p
  obtain st1 where w: "waitsForKeys t1" and r1: "resume r at t st = Inr (t1, st1)"
    and h: "\<forall>cs. streamHolds st cs \<longrightarrow> streamHolds st1 (cs @ b)"
    by blast
  from r1 assms(2) have "t1 = t'" "st1 = st'" by simp_all
  with Inr p w h show ?thesis by simp
qed

lemma callWrites_unique:
  "callWrites r at t bs \<Longrightarrow> callWrites r at t bs' \<Longrightarrow> bs = bs'"
proof (induction arbitrary: bs' rule: callWrites.induct)
  case ended
  then show ?case
    by (auto elim: callWrites.cases)
next
  case (stepped t t' b bs)
  from stepped.prems stepped.hyps(1,2) obtain cs
    where "bs' = b # cs" "callWrites r at t' cs"
    by (auto elim: callWrites.cases)
  with stepped.IH show ?case by simp
qed

section \<open>The batches of a sequential run\<close>

lemma page_neq_0: "length ([] :: string list) \<noteq> page"
  by (simp add: page_def)

lemma afterPage_Nil: "afterPage prefix [] = Finished"
  by (simp add: afterPage_def page_def)

lemma callWrites_keys:
  assumes "t = AwaitFirstKeys prefix \<and> cursor = None \<or> t = AwaitNextKeys prefix c \<and> cursor = Some c"
    and "state_getKeysPaged r prefix page cursor at = Inr keys"
    and "keys \<noteq> [] \<longrightarrow> state_queryStorageAt r keys at = Inr vals"
    and "callWrites r at (afterPage prefix keys) bs"
  shows "callWrites r at t ([] # (if keys \<noteq> [] then [[makePairs keys vals]] else []) @ bs)"
proof (cases "keys = []")
  case True
  from assms(1) have "t \<noteq> Finished" by auto
  moreover from assms(1,2) True have "advance r at t = Inr (Finished, [])"
    by auto
  moreover from assms(4) True have "callWrites r at Finished bs"
    by (simp add: afterPage_Nil)
  ultimately have "callWrites r at t ([] # bs)"
    by (rule callWrites.stepped)
  with True show ?thesis by simp
next
  case False
  from assms(1,2) False have a: "advance r at t = Inr (AwaitValues prefix keys, [])"
    by auto
  from assms(1) have t: "t \<noteq> Finished" by auto
  from assms(3) False have v: "advance r at (AwaitValues prefix keys) =
      Inr (afterPage prefix keys, [makePairs keys vals])"
    by (simp add: afterPage_def)
  have "AwaitValues prefix keys \<noteq> Finished" by simp
  from callWrites.stepped [OF this v assms(4)]
  have "callWrites r at (AwaitValues prefix keys) ([makePairs keys vals] # bs)" .
  from callWrites.stepped [OF t a this]
  have "callWrites r at t ([] # [makePairs keys vals] # bs)" .
  with False show ?thesis by simp
qed

lemma fetchValues_holds:
  assumes "fetchValues r at keys st = Inr st'" and "keys \<noteq> []"
  shows "\<exists>vals. state_queryStorageAt r keys at = Inr vals \<and>
     (\<forall>cs. streamHolds st cs \<longrightarrow> streamHolds st' (cs @ [makePairs keys vals]))"
proof (cases "state_queryStorageAt r keys at")
  case (Inl e)
  with assms(1) show ?thesis by (simp add: fetchValues_def)
next
  case (Inr vals)
  with assms(1) have "st' = receiveValues keys vals (send (StorageAt keys at) st)"
    by (simp add: fetchValues_def)
  with Inr assms(2) show ?thesis
    by (auto intro: streamHolds_receiveValues)
qed

lemma nextPage_holds:
  assumes "nextPage r at prefix keys st = Inr (keys', st')"
  shows "state_getKeysPaged r prefix page (Some (keys ! (length keys - 1))) at = Inr keys' \<and>
     (\<exists>vals. (keys' \<noteq> [] \<longrightarrow> state_queryStorageAt r keys' at = Inr vals) \<and>
        (\<forall>cs. streamHolds st cs \<longrightarrow>
           streamHolds st' (cs @ (if keys' \<noteq> [] then [makePairs keys' vals] else []))))"
proof (cases "state_getKeysPaged r prefix page (Some (keys ! (length keys - 1))) at")
  case (Inl e)
  with assms show ?thesis by (simp add: nextPage_def Let_def)
next
  case (Inr ks)
  define st2 where "st2 = send (KeysPaged prefix page (Some (keys ! (length keys - 1))) at)
     (console_log (KeysFetched (total_keys_count st + length keys))
        (st\<lparr>total_keys_count := total_keys_count st + length keys\<rparr>))"
  have h2: "streamHolds st2 cs = streamHolds st cs" for cs
    by (simp add: st2_def)
  show ?thesis
  proof (cases "ks = []")
    case True
    with assms Inr have "keys' = []" "st' = st2"
      by (simp_all add: nextPage_def Let_def st2_def)
    with Inr True h2 show ?thesis by simp
  next
    case False
    with assms Inr obtain st3 where f: "fetchValues r at ks st2 = Inr st3"
      and e: "keys' = ks" "st' = st3"
      by (auto simp: nextPage_def Let_def st2_def split: sum.splits)
    from fetchValues_holds [OF f False] e Inr False h2 show ?thesis
      by auto
  qed
qed

lemma firstPage_holds:
  assumes "firstPage r at prefix st = Inr (keys', st')"
  shows "state_getKeysPaged r prefix page None at = Inr keys' \<and>
     (\<exists>vals. (keys' \<noteq> [] \<longrightarrow> state_queryStorageAt r keys' at = Inr vals) \<and>
        (\<forall>cs. streamHolds st cs \<longrightarrow>
           streamHolds st' (cs @ (if keys' \<noteq> [] then [makePairs keys' vals] else []))))"
proof (cases "state_getKeysPaged r prefix page None at")
  case (Inl e)
  with assms show ?thesis by (simp add: firstPage_def Let_def)
next
  case (Inr ks)
  define st1 where "st1 = send (KeysPaged prefix page None at) st"
  define st2 where "st2 = console_log (KeysFetched (total_keys_count st1 + length ks))
     (st1\<lparr>total_keys_count := total_keys_count st1 + length ks\<rparr>)"
  have h1: "streamHolds st1 cs = streamHolds st cs" for cs
    by (simp add: st1_def)
  have h2: "streamHolds st2 cs = streamHolds st cs" for cs
    by (simp add: st2_def h1)
  show ?thesis
  proof (cases "ks = []")
    case True
    with assms Inr have "keys' = []" "st' = st1"
      by (simp_all add: firstPage_def Let_def st1_def)
    with Inr True h1 show ?thesis by simp
  next
    case False
    with assms Inr obtain st3 where f: "fetchValues r at ks st2 = Inr st3"
      and e: "keys' = ks" "st' = st3"
      by (auto simp: firstPage_def Let_def st1_def st2_def split: sum.splits)
    from fetchValues_holds [OF f False] e Inr False h2 show ?thesis
      by auto
  qed
qed

lemma fetchLoop_writes:
  assumes "fetchLoop r at prefix keys st = Some res"
  shows "\<forall>st' cs. res = Inr st' \<and> streamHolds st cs \<longrightarrow>
     (\<exists>bs. callWrites r at (afterPage prefix keys) bs \<and> streamHolds st' (cs @ concat bs))"
proof -
  define P where "P = (\<lambda>r at prefix keys st (res :: error + state).
     \<forall>st' cs. res = Inr st' \<and> streamHolds st cs \<longrightarrow>
       (\<exists>bs. callWrites r at (afterPage prefix keys) bs \<and> streamHolds st' (cs @ concat bs)))"
  have "P r at prefix keys st res"
  proof (rule fetchLoop.raw_induct [where P = P, OF _ assms])
    fix loop r at prefix keys st res
    assume ih: "\<And>r at prefix keys st res. loop r at prefix keys st = Some res \<Longrightarrow> P r at prefix keys st res"
      and eq: "(if length keys = page
         then case nextPage r at prefix keys st of
                Inl e \<Rightarrow> Some (Inl e)
              | Inr (keys', st') \<Rightarrow> loop r at prefix keys' st'
         else Some (Inr st)) = Some res"
    show "P r at prefix keys st res"
      unfolding P_def
    proof (intro allI impI)
      fix st' cs
      assume a: "res = Inr st' \<and> streamHolds st cs"
      show "\<exists>bs. callWrites r at (afterPage prefix keys) bs \<and> streamHolds st' (cs @ concat bs)"
      proof (cases "length keys = page")
        case False
        with eq a have "st' = st" by simp
        moreover from False have "callWrites r at (afterPage prefix keys) []"
          by (simp add: afterPage_def callWrites.ended)
        ultimately show ?thesis using a by fastforce
      next
        case True
        with eq a obtain keys' st1
          where np: "nextPage r at prefix keys st = Inr (keys', st1)"
            and lp: "loop r at prefix keys' st1 = Some (Inr st')"
          by (auto split: sum.splits)
        from nextPage_holds [OF np] obtain vals
          where k: "state_getKeysPaged r prefix page (Some (keys ! (length keys - 1))) at = Inr keys'"
            and v: "keys' \<noteq> [] \<longrightarrow> state_queryStorageAt r keys' at = Inr vals"
            and h: "streamHolds st1 (cs @ (if keys' \<noteq> [] then [makePairs keys' vals] else []))"
          using a by blast
        from ih [OF lp] h obtain bs
          where w: "callWrites r at (afterPage prefix keys') bs"
            and h': "streamHolds st' ((cs @ (if keys' \<noteq> [] then [makePairs keys' vals] else [])) @ concat bs)"
          unfolding P_def by blast
        have "callWrites r at (AwaitNextKeys prefix (keys ! (length keys - 1)))
            ([] # (if keys' \<noteq> [] then [[makePairs keys' vals]] else []) @ bs)"
          by (rule callWrites_keys [OF _ k v w]) simp
        with True have "callWrites r at (afterPage prefix keys)
            ([] # (if keys' \<noteq> [] then [[makePairs keys' vals]] else []) @ bs)"
          by (simp add: afterPage_def)
        moreover from h' have "streamHolds st'
            (cs @ concat ([] # (if keys' \<noteq> [] then [[makePairs keys' vals]] else []) @ bs))"
          by (cases "keys' = []") simp_all
        ultimately show ?thesis by blast
      qed
    qed
  qed
  then show ?thesis unfolding P_def .
qed

lemma fetchBase_writes:
  assumes "fetchBase r at prefix st = Some (Inr st')" and "streamHolds st cs"
  shows "\<exists>bs. callWrites r at (AwaitFirstKeys prefix) bs \<and> streamHolds st' (cs @ concat bs)"
proof -
  from assms(1) obtain keys st1 st2
    where fp: "firstPage r at prefix st = Inr (keys, st1)"
      and lp: "fetchLoop r at prefix keys st1 = Some (Inr st2)"
      and st': "st' = st2\<lparr>chunksFetched := chunksFetched st2 + 1\<rparr>"
    by (auto simp: fetchBase_def split: sum.splits option.splits)
  from firstPage_holds [OF fp] assms(2) obtain vals
    where k: "state_getKeysPaged r prefix page None at = Inr keys"
      and v: "keys \<noteq> [] \<longrightarrow> state_queryStorageAt r keys at = Inr vals"
      and h: "streamHolds st1 (cs @ (if keys \<noteq> [] then [makePairs keys vals] else []))"
    by blast
  from fetchLoop_writes [OF lp] h obtain bs
    where w: "callWrites r at (afterPage prefix keys) bs"
      and h': "streamHolds st2 ((cs @ (if keys \<noteq> [] then [makePairs keys vals] else [])) @ concat bs)"
    by blast
  have "callWrites r at (AwaitFirstKeys prefix)
      ([] # (if keys \<noteq> [] then [[makePairs keys vals]] else []) @ bs)"
    by (rule callWrites_keys [OF _ k v w]) simp
  moreover from h' have "streamHolds st'
      (cs @ concat ([] # (if keys \<noteq> [] then [[makePairs keys vals]] else []) @ bs))"
    by (cases "keys = []") (simp_all add: st')
  ultimately show ?thesis by blast
qed

lemma forAwait_writes:
  assumes "forAwait (fetchBase r at) ls st = Some (Inr st')" and "streamHolds st cs"
  shows "\<exists>Bs. list_all2 (\<lambda>l bs. callWrites r at (AwaitFirstKeys l) bs) ls Bs \<and>
     streamHolds st' (cs @ concat (concat Bs))"
  using assms
proof (induction ls arbitrary: st cs)
  case Nil
  then show ?case by simp
next
  case (Cons l ls)
  from Cons.prems(1) obtain st1 where b: "fetchBase r at l st = Some (Inr st1)"
    and f: "forAwait (fetchBase r at) ls st1 = Some (Inr st')"
    by (auto split: option.splits sum.splits)
  from fetchBase_writes [OF b Cons.prems(2)] obtain bs
    where w: "callWrites r at (AwaitFirstKeys l) bs" and h: "streamHolds st1 (cs @ concat bs)"
    by blast
  from Cons.IH [OF f h] obtain Bs
    where ws: "list_all2 (\<lambda>l bs. callWrites r at (AwaitFirstKeys l) bs) ls Bs"
      and h': "streamHolds st' ((cs @ concat bs) @ concat (concat Bs))"
    by blast
  from w ws have "list_all2 (\<lambda>l bs. callWrites r at (AwaitFirstKeys l) bs) (l # ls) (bs # Bs)"
    by simp
  moreover from h' have "streamHolds st' (cs @ concat (concat (bs # Bs)))"
    by simp
  ultimately show ?case by blast
qed

section \<open>The batches of concurrent leaves\<close>

lemma mset_concat_update:
  "i < length Bs \<Longrightarrow>
   mset (concat (concat (Bs[i := b # Bs ! i]))) = mset b + mset (concat (concat Bs))"
proof (induction Bs arbitrary: i)
  case Nil
  then show ?case by simp
next
  case (Cons B Bs)
  then show ?case by (cases i) simp_all
qed

lemma length_concat_update:
  "i < length Bs \<Longrightarrow> Bs ! i = b # bs \<Longrightarrow>
   length (concat Bs) = Suc (length (concat (Bs[i := bs])))"
proof (induction Bs arbitrary: i)
  case Nil
  then show ?case by simp
next
  case (Cons B Bs)
  then show ?case by (cases i) simp_all
qed

lemma awaitAll_writes:
  assumes "awaitAll r at ts st res"
  shows "\<forall>st' cs. res = Inr st' \<and> list_all waitsForKeys ts \<and> streamHolds st cs \<longrightarrow>
     (\<exists>Bs ds. list_all2 (callWrites r at) ts Bs \<and> streamHolds st' (cs @ ds) \<and>
        mset ds = mset (concat (concat Bs)))"
  using assms
proof (induction rule: awaitAll.induct)
  case (finished ts st)
  have "list_all2 (callWrites r at) ts (map (\<lambda>t. []) ts)"
    using finished by (auto simp: list_all2_conv_all_nth list_all_length intro: callWrites.ended)
  moreover have "concat (concat (map (\<lambda>t. []) ts)) = ([] :: (string \<times> jsval) list list)"
    by (induction ts) simp_all
  ultimately show ?case
    by (metis append_Nil2 sum.inject(2))
next
  case (thrown i ts st e)
  then show ?case by simp
next
  case (step i ts st t' st1 res)
  show ?case
  proof (intro allI impI)
    fix st' cs
    assume a: "res = Inr st' \<and> list_all waitsForKeys ts \<and> streamHolds st cs"
    with step.hyps(1) have wi: "waitsForKeys (ts ! i)"
      by (simp add: list_all_length)
    from resume_Inr [OF wi step.hyps(3)] a obtain b
      where adv: "advance r at (ts ! i) = Inr (t', b)" and w': "waitsForKeys t'"
        and h1: "streamHolds st1 (cs @ b)"
      by blast
    from a w' step.hyps(1) have "list_all waitsForKeys (ts[i := t'])"
      by (auto simp: list_all_length nth_list_update)
    with step.IH a h1 obtain Bs ds
      where l2: "list_all2 (callWrites r at) (ts[i := t']) Bs"
        and h': "streamHolds st' ((cs @ b) @ ds)"
        and m: "mset ds = mset (concat (concat Bs))"
      by blast
    from l2 have len: "length Bs = length ts"
      by (simp add: list_all2_lengthD [symmetric])
    from l2 step.hyps(1) have "callWrites r at t' (Bs ! i)"
      by (auto simp: list_all2_conv_all_nth)
    from callWrites.stepped [OF step.hyps(2) adv this]
    have ci: "callWrites r at (ts ! i) (b # Bs ! i)" .
    have "list_all2 (callWrites r at) ts (Bs[i := b # Bs ! i])"
      unfolding list_all2_conv_all_nth
    proof (intro conjI allI impI)
      show "length ts = length (Bs[i := b # Bs ! i])"
        by (simp add: len)
    next
      fix j assume j: "j < length ts"
      show "callWrites r at (ts ! j) (Bs[i := b # Bs ! i] ! j)"
      proof (cases "j = i")
        case True
        with ci j len show ?thesis by simp
      next
        case False
        with l2 j have "callWrites r at (ts ! j) (Bs ! j)"
          by (auto simp: list_all2_conv_all_nth)
        with False show ?thesis by simp
      qed
    qed
    moreover from h' have "streamHolds st' (cs @ b @ ds)"
      by simp
    moreover have "mset (b @ ds) = mset (concat (concat (Bs[i := b # Bs ! i])))"
      using m step.hyps(1) len by (simp add: mset_concat_update)
    ultimately show "\<exists>Bs ds. list_all2 (callWrites r at) ts Bs \<and> streamHolds st' (cs @ ds) \<and>
        mset ds = mset (concat (concat Bs))"
      by blast
  qed
qed

lemma awaitAll_exists:
  assumes "list_all2 (callWrites r at) ts Bs" and "list_all waitsForKeys ts"
  shows "\<exists>st'. awaitAll r at ts st (Inr st')"
  using assms
proof (induction "length (concat Bs)" arbitrary: ts Bs st)
  case 0
  have "ts ! i = Finished" if "i < length ts" for i
  proof -
    from "0.prems"(1) that have c: "callWrites r at (ts ! i) (Bs ! i)" and "Bs ! i \<in> set Bs"
      by (auto simp: list_all2_conv_all_nth)
    with "0.hyps" have "Bs ! i = []" by auto
    with c show ?thesis by (auto elim: callWrites.cases)
  qed
  then have "list_all (\<lambda>t. t = Finished) ts"
    by (simp add: list_all_length)
  then show ?case
    by (blast intro: awaitAll.finished)
next
  case (Suc n)
  show ?case
  proof (cases "list_all (\<lambda>t. t = Finished) ts")
    case True
    then show ?thesis by (blast intro: awaitAll.finished)
  next
    case False
    then obtain i where i: "i < length ts" and ni: "ts ! i \<noteq> Finished"
      by (auto simp: list_all_length)
    from Suc.prems(1) have len: "length Bs = length ts"
      by (simp add: list_all2_lengthD [symmetric])
    from Suc.prems(1) i have "callWrites r at (ts ! i) (Bs ! i)"
      by (auto simp: list_all2_conv_all_nth)
    with ni obtain t' b bs where Bi: "Bs ! i = b # bs"
      and adv: "advance r at (ts ! i) = Inr (t', b)" and c': "callWrites r at t' bs"
      by (auto elim: callWrites.cases)
    from Suc.prems(2) i have wi: "waitsForKeys (ts ! i)"
      by (simp add: list_all_length)
    from resume_advance [OF wi, of r at st] adv obtain st1
      where w': "waitsForKeys t'" and res: "resume r at (ts ! i) st = Inr (t', st1)"
      by blast
    have l2: "list_all2 (callWrites r at) (ts[i := t']) (Bs[i := bs])"
      using Suc.prems(1) c' i len by (auto simp: list_all2_conv_all_nth nth_list_update)
    have wf: "list_all waitsForKeys (ts[i := t'])"
      using Suc.prems(2) w' i by (auto simp: list_all_length nth_list_update)
    from length_concat_update [of i Bs b bs] i len Bi Suc.hyps(2)
    have "n = length (concat (Bs[i := bs]))"
      by simp
    from Suc.hyps(1) [OF this l2 wf, of st1] obtain st'
      where "awaitAll r at (ts[i := t']) st1 (Inr st')"
      by blast
    from awaitAll.step [OF i ni res this] show ?thesis
      by blast
  qed
qed

section \<open>The batches of a run with QUICK\_MODE\<close>

lemma streamHolds_fold_send [simp]:
  "streamHolds (fold (\<lambda>i. send (f i)) js st) cs = streamHolds st cs"
  by (induction js arbitrary: st) simp_all

lemma spawnLeaves_eq:
  "spawnLeaves at prefix st = (ts, st1) \<Longrightarrow>
   ts = map (\<lambda>i. AwaitFirstKeys (childPrefix prefix i)) [0..<256] \<and>
   (\<forall>cs. streamHolds st1 cs = streamHolds st cs)"
  by (auto simp: spawnLeaves_def)

lemma leafWrites_Nil: "leafWrites r at [] st (Inr st)"
  unfolding leafWrites_def
proof (intro allI impI)
  fix st' cs
  assume "Inr st = (Inr st' :: error + state) \<and> streamHolds st cs"
  then have "list_all2 (\<lambda>l bs. callWrites r at (AwaitFirstKeys l) bs) [] [] \<and>
      streamHolds st' (cs @ []) \<and> mset ([] :: (string \<times> jsval) list list) = mset (concat (concat []))"
    by auto
  then show "\<exists>Bs ds. list_all2 (\<lambda>l bs. callWrites r at (AwaitFirstKeys l) bs) [] Bs \<and>
      streamHolds st' (cs @ ds) \<and> mset ds = mset (concat (concat Bs))"
    by blast
qed

lemma leafWrites_append:
  assumes "leafWrites r at ls st (Inr st1)" and "leafWrites r at ms st1 res"
  shows "leafWrites r at (ls @ ms) st res"
  unfolding leafWrites_def
proof (intro allI impI)
  fix st' cs
  assume a: "res = Inr st' \<and> streamHolds st cs"
  with assms(1) obtain Bs ds
    where 1: "list_all2 (\<lambda>l bs. callWrites r at (AwaitFirstKeys l) bs) ls Bs"
      and h1: "streamHolds st1 (cs @ ds)" and m1: "mset ds = mset (concat (concat Bs))"
    unfolding leafWrites_def by blast
  from assms(2) a h1 obtain Cs es
    where 2: "list_all2 (\<lambda>l bs. callWrites r at (AwaitFirstKeys l) bs) ms Cs"
      and h2: "streamHolds st' ((cs @ ds) @ es)" and m2: "mset es = mset (concat (concat Cs))"
    unfolding leafWrites_def by blast
  from 1 2 have "list_all2 (\<lambda>l bs. callWrites r at (AwaitFirstKeys l) bs) (ls @ ms) (Bs @ Cs)"
    by (rule list_all2_appendI)
  moreover from h2 have "streamHolds st' (cs @ ds @ es)" by simp
  moreover from m1 m2 have "mset (ds @ es) = mset (concat (concat (Bs @ Cs)))" by simp
  ultimately show "\<exists>Bs ds. list_all2 (\<lambda>l bs. callWrites r at (AwaitFirstKeys l) bs) (ls @ ms) Bs \<and>
      streamHolds st' (cs @ ds) \<and> mset ds = mset (concat (concat Bs))"
    by blast
qed

lemma fetchChunksQuick_writes:
  "fetchChunksQuick r at prefix levelsRemaining st res \<Longrightarrow>
     leafWrites r at (leafChunks prefix levelsRemaining) st res"
  and "forAwaitQuick r at prefix l js st res \<Longrightarrow>
     leafWrites r at (concat (map (\<lambda>i. leafChunks (childPrefix prefix i) l) js)) st res"
proof (induction rule: fetchChunksQuick_forAwaitQuick.inducts)
  case (base levelsRemaining prefix st res)
  then have ls: "leafChunks prefix levelsRemaining = [prefix]"
    by (simp add: leafChunks.simps [of prefix levelsRemaining])
  show ?case
    unfolding ls leafWrites_def
  proof (intro allI impI)
    fix st' cs
    assume a: "res = Inr st' \<and> streamHolds st cs"
    with base have "fetchBase r at prefix st = Some (Inr st')" by simp
    from fetchBase_writes [OF this] a obtain bs
      where "callWrites r at (AwaitFirstKeys prefix) bs" "streamHolds st' (cs @ concat bs)"
      by blast
    then have "list_all2 (\<lambda>l bs. callWrites r at (AwaitFirstKeys l) bs) [prefix] [bs] \<and>
        streamHolds st' (cs @ concat bs) \<and> mset (concat bs) = mset (concat (concat [bs]))"
      by simp
    then show "\<exists>Bs ds. list_all2 (\<lambda>l bs. callWrites r at (AwaitFirstKeys l) bs) [prefix] Bs \<and>
        streamHolds st' (cs @ ds) \<and> mset ds = mset (concat (concat Bs))"
      by blast
  qed
next
  case (leaves levelsRemaining prefix st ts st1 res)
  from spawnLeaves_eq [OF leaves(2)]
  have ts: "ts = map (\<lambda>i. AwaitFirstKeys (childPrefix prefix i)) [0..<256]"
    and h: "\<And>cs. streamHolds st1 cs = streamHolds st cs"
    by simp_all
  have wf: "list_all waitsForKeys ts"
    unfolding ts by (simp add: list_all_iff)
  have ls: "leafChunks prefix levelsRemaining = map (childPrefix prefix) [0..<256]"
    using leaves(1) by (simp add: leafChunks_1)
  show ?case
    unfolding ls leafWrites_def
  proof (intro allI impI)
    fix st' cs
    assume a: "res = Inr st' \<and> streamHolds st cs"
    with awaitAll_writes [OF leaves(3)] wf h obtain Bs ds
      where l2: "list_all2 (callWrites r at) ts Bs" and h': "streamHolds st' (cs @ ds)"
        and m: "mset ds = mset (concat (concat Bs))"
      by blast
    from l2 have "list_all2 (\<lambda>l bs. callWrites r at (AwaitFirstKeys l) bs)
        (map (childPrefix prefix) [0..<256]) Bs"
      unfolding ts by (simp add: list_all2_map1)
    with h' m show "\<exists>Bs ds. list_all2 (\<lambda>l bs. callWrites r at (AwaitFirstKeys l) bs)
          (map (childPrefix prefix) [0..<256]) Bs \<and>
        streamHolds st' (cs @ ds) \<and> mset ds = mset (concat (concat Bs))"
      by blast
  qed
next
  case (inner levelsRemaining prefix st res)
  then have "leafChunks prefix levelsRemaining =
      concat (map (\<lambda>i. leafChunks (childPrefix prefix i) (levelsRemaining - 1)) [0..<256])"
    by (simp add: leafChunks.simps [of prefix levelsRemaining])
  with inner show ?case by simp
next
  case (none prefix l st)
  show ?case
    by (simp add: leafWrites_Nil)
next
  case (thrown prefix i l st e js)
  show ?case
    unfolding leafWrites_def by simp
next
  case (continue prefix i l st st' js res)
  from leafWrites_append [OF continue(2) continue(4)] show ?case
    by simp
qed

section \<open>The batches of the fetch phase\<close>

lemma streamHolds_openSnapshot:
  assumes "storageFile st = None" and "\<not> separator st"
  shows "streamHolds (console_log m (openSnapshot st)) []"
  using assms by (simp add: streamHolds_def openSnapshot_def stream_write_def)

lemma closed_stream:
  assumes "streamHolds st ds"
  shows "[] \<notin> set ds \<and>
     storageFile (stream_write '']'' st) = Some (''['' @ join '','' (map batchText ds) @ '']'') \<and>
     storageFile (stream_write '']'' st) = Some (JSON_stringify (concat ds))"
proof -
  from assms have n: "[] \<notin> set ds"
    and f: "storageFile st = Some (''['' @ join '','' (map batchText ds))"
    by (simp_all add: streamHolds_def)
  from f have "storageFile (stream_write '']'' st) = Some (''['' @ join '','' (map batchText ds) @ '']'')"
    by (simp add: stream_write_def)
  with n stringify_batches [OF n] show ?thesis by simp
qed

lemma fetchPhase_holds:
  assumes "storageFile st = None" and "\<not> separator st"
    and "fetchPhase r chunksLevel st = Some (Inr st')"
  shows "\<exists>at st1 Bs. chain_getFinalizedHead r = Inr at \<and>
     list_all2 (\<lambda>l bs. callWrites r at (AwaitFirstKeys l) bs) (leafChunks ''0x'' chunksLevel) Bs \<and>
     streamHolds st1 (concat (concat Bs)) \<and> st' = stream_write '']'' st1"
proof -
  from assms(1,3) obtain at st1 where h: "chain_getFinalizedHead r = Inr at"
    and f: "fetchChunks r at ''0x'' chunksLevel (console_log (StartingAtBlock at) (openSnapshot st)) =
        Some (Inr st1)"
    and e: "st' = stream_write '']'' st1"
    by (auto simp: fetchPhase_def split: sum.splits option.splits)
  from f have "forAwait (fetchBase r at) (leafChunks ''0x'' chunksLevel)
      (console_log (StartingAtBlock at) (openSnapshot st)) = Some (Inr st1)"
    by (simp add: fetchChunks_leafChunks)
  from forAwait_writes [OF this streamHolds_openSnapshot [OF assms(1,2)]] h e show ?thesis
    by auto
qed

lemma fetchPhaseQuick_holds:
  assumes "storageFile st = None" and "\<not> separator st"
    and "fetchPhaseQuick r chunksLevel st (Inr st')"
  shows "\<exists>at st1 Bs ds. chain_getFinalizedHead r = Inr at \<and>
     list_all2 (\<lambda>l bs. callWrites r at (AwaitFirstKeys l) bs) (leafChunks ''0x'' chunksLevel) Bs \<and>
     streamHolds st1 ds \<and> mset ds = mset (concat (concat Bs)) \<and> st' = stream_write '']'' st1"
proof -
  from assms(3,1) obtain at st1 where h: "chain_getFinalizedHead r = Inr at"
    and f: "fetchChunksQuick r at ''0x'' chunksLevel
        (console_log (StartingAtBlock at) (openSnapshot st)) (Inr st1)"
    and e: "st' = stream_write '']'' st1"
    by (auto elim: fetchPhaseQuick.cases)
  from fetchChunksQuick_writes(1) [OF f] streamHolds_openSnapshot [OF assms(1,2), of "StartingAtBlock at"]
  obtain Bs ds
    where "list_all2 (\<lambda>l bs. callWrites r at (AwaitFirstKeys l) bs) (leafChunks ''0x'' chunksLevel) Bs"
      and "streamHolds st1 ([] @ ds)" and "mset ds = mset (concat (concat Bs))"
    unfolding leafWrites_def by blast
  with h e show ?thesis by auto
qed

lemma callWrites_no_keys:
  assumes "\<forall>prefix cursor. state_getKeysPaged r prefix page cursor at = Inr []"
    and "callWrites r at (AwaitFirstKeys l) bs"
  shows "concat bs = []"
proof -
  from assms(1) have "advance r at (AwaitFirstKeys l) = Inr (Finished, [])"
    by simp
  with assms(2) obtain cs where "bs = [] # cs" "callWrites r at Finished cs"
    by (auto elim: callWrites.cases)
  then show ?thesis
    by (auto elim: callWrites.cases)
qed

lemma leaves_no_keys:
  assumes "\<forall>prefix cursor. state_getKeysPaged r prefix page cursor at = Inr []"
    and "list_all2 (\<lambda>l bs. callWrites r at (AwaitFirstKeys l) bs) ls Bs"
  shows "concat (concat Bs) = []"
  using assms(2)
proof (induction rule: list_all2_induct)
  case Nil
  then show ?case by simp
next
  case (Cons l ls bs Bs)
  with callWrites_no_keys [OF assms(1) Cons.hyps(1)] show ?case by simp
qed

lemma callWrites_list_unique:
  assumes "list_all2 (\<lambda>l bs. callWrites r at (AwaitFirstKeys l) bs) ls Bs"
    and "list_all2 (\<lambda>l bs. callWrites r at (AwaitFirstKeys l) bs) ls Cs"
  shows "Bs = Cs"
  using assms
proof (induction arbitrary: Cs rule: list_all2_induct)
  case Nil
  then show ?case by simp
next
  case (Cons l ls bs Bs)
  from Cons.prems obtain cs Cs' where c: "Cs = cs # Cs'"
    and 1: "callWrites r at (AwaitFirstKeys l) cs"
    and 2: "list_all2 (\<lambda>l bs. callWrites r at (AwaitFirstKeys l) bs) ls Cs'"
    by (auto simp: list_all2_Cons1)
  from callWrites_unique [OF Cons.hyps(1) 1] Cons.IH [OF 2] c show ?case by simp
qed

section \<open>Runs that return\<close>

lemma nullRemote_serves:
  "\<exists>ps. servesPages nullRemote at l None ps \<and> servesValues nullRemote at ps"
proof (cases "startsWith ''0xcc01'' l")
  case True
  then have "servesPages nullRemote at l None [[''0xcc01'']] \<and> servesValues nullRemote at [[''0xcc01'']]"
    by (simp add: nullRemote_def servesValues_def page_def)
  then show ?thesis by blast
next
  case False
  then have "servesPages nullRemote at l None [[]] \<and> servesValues nullRemote at [[]]"
    by (simp add: nullRemote_def servesValues_def page_def)
  then show ?thesis by blast
qed

lemma forAwait_returns:
  assumes "\<forall>l \<in> set ls. \<exists>ps. servesPages r at l None ps \<and> servesValues r at ps"
  shows "\<exists>st'. forAwait (fetchBase r at) ls st = Some (Inr st')"
  using assms
proof (induction ls arbitrary: st)
  case Nil
  then show ?case by simp
next
  case (Cons l ls)
  from Cons.prems obtain ps where "servesPages r at l None ps" "servesValues r at ps"
    by auto
  from fetchBase_pages [OF this, of st] obtain st1 where "fetchBase r at l st = Some (Inr st1)"
    by blast
  moreover from Cons.IH [of st1] Cons.prems obtain st'
    where "forAwait (fetchBase r at) ls st1 = Some (Inr st')"
    by auto
  ultimately show ?case by simp
qed

lemma quick_leaves_exist:
  assumes "fetchChunks r at prefix 1 st = Some (Inr st1)" and "streamHolds st cs"
  shows "\<exists>st2. fetchChunksQuick r at prefix 1 st (Inr st2)"
proof -
  from assms(1) have "forAwait (fetchBase r at) (map (childPrefix prefix) [0..<256]) st = Some (Inr st1)"
    by (simp add: fetchChunks_leafChunks leafChunks_1)
  from forAwait_writes [OF this assms(2)] obtain Bs
    where "list_all2 (\<lambda>l bs. callWrites r at (AwaitFirstKeys l) bs) (map (childPrefix prefix) [0..<256]) Bs"
    by blast
  then have l2: "list_all2 (callWrites r at) (fst (spawnLeaves at prefix st)) Bs"
    by (simp add: spawnLeaves_def list_all2_map1)
  have "list_all waitsForKeys (fst (spawnLeaves at prefix st))"
    by (simp add: spawnLeaves_def list_all_iff)
  from awaitAll_exists [OF l2 this, of "snd (spawnLeaves at prefix st)"] obtain st2
    where "awaitAll r at (fst (spawnLeaves at prefix st)) (snd (spawnLeaves at prefix st)) (Inr st2)"
    by blast
  then have "fetchChunksQuick r at prefix 1 st (Inr st2)"
    by (intro fetchChunksQuick_forAwaitQuick.leaves [where ts = "fst (spawnLeaves at prefix st)"
          and ?st1.0 = "snd (spawnLeaves at prefix st)"]) simp_all
  then show ?thesis by blast
qed

lemma nullRemote_runs:
  "\<exists>st1 st2. fetchPhase nullRemote 1 initialState = Some (Inr st1) \<and>
     fetchPhaseQuick nullRemote 1 initialState (Inr st2)"
proof -
  define st0 where "st0 = console_log (StartingAtBlock ''0xb10c'') (openSnapshot initialState)"
  have h: "chain_getFinalizedHead nullRemote = Inr ''0xb10c''"
    by (simp add: nullRemote_def)
  have n: "storageFile initialState = None" "\<not> separator initialState"
    by (simp_all add: initialState_def)
  from forAwait_returns [of "leafChunks ''0x'' 1" nullRemote "''0xb10c''" st0] nullRemote_serves
  obtain s1 where f: "fetchChunks nullRemote ''0xb10c'' ''0x'' 1 st0 = Some (Inr s1)"
    by (auto simp: fetchChunks_leafChunks)
  have "streamHolds st0 []"
    unfolding st0_def by (rule streamHolds_openSnapshot [OF n])
  from quick_leaves_exist [OF f this] obtain s2
    where q: "fetchChunksQuick nullRemote ''0xb10c'' ''0x'' 1 st0 (Inr s2)"
    by blast
  from f have "fetchPhase nullRemote 1 initialState = Some (Inr (stream_write '']'' s1))"
    by (simp add: fetchPhase_def n h st0_def)
  moreover from q have "fetchPhaseQuick nullRemote 1 initialState (Inr (stream_write '']'' s2))"
    unfolding st0_def by (rule fetchPhaseQuick.fetched [OF n(1) h])
  ultimately show ?thesis by blast
qed

lemma fetchPhase_nullRemote_0:
  \<open>\<exists>st'. fetchPhase nullRemote 0 initialState = Some (Inr st') \<and>
     storageFile st' = Some ''[["0xcc01",null]]''\<close>
  by (simp add: fetchPhase_def initialState_def nullRemote_def openSnapshot_def
      fetchChunks.simps fetchBase_def firstPage_def fetchValues_def receiveValues_def
      writePairs_def fetchLoop.simps page_def makePairs_def JSON_stringify_def pairText_def
      quoteJSON_cc01 slice_def stream_write_def console_log_def send_def startsWith_def)

section \<open>A snapshot determines its pairs\<close>

lemma of_char_inj: "(of_char c :: nat) = of_char d \<Longrightarrow> c = d"
  by simp

lemma hex2_append_inj:
  assumes "i < 256" "j < 256" "hex2 i @ x = hex2 j @ y"
  shows "i = j \<and> x = y"
proof -
  from assms have "hex2 i = hex2 j \<and> x = y"
    by (simp add: length_hex2)
  with hex2_inj [OF assms(1,2)] show ?thesis by simp
qed

lemma escapeChar_plain:
  "c \<noteq> CHR 0x22 \<Longrightarrow> c \<noteq> CHR 0x5C \<Longrightarrow> \<not> (of_char c :: nat) < 0x20 \<Longrightarrow> escapeChar c = [c]"
  by (auto simp: escapeChar_def)

lemma escapeChar_escaped:
  assumes "c = CHR 0x22 \<or> c = CHR 0x5C \<or> (of_char c :: nat) < 0x20"
  shows "escapeChar c = CHR 0x5C # escapeChar c ! 1 # drop 2 (escapeChar c) \<and>
     (escapeChar c ! 1 = CHR ''u'' \<and> drop 2 (escapeChar c) = ''00'' @ hex2 (of_char c) \<or>
      escapeChar c ! 1 \<noteq> CHR ''u'' \<and> drop 2 (escapeChar c) = [] \<and>
      c = (if escapeChar c ! 1 = CHR 0x22 then CHR 0x22
           else if escapeChar c ! 1 = CHR 0x5C then CHR 0x5C
           else if escapeChar c ! 1 = CHR ''b'' then CHR 0x08
           else if escapeChar c ! 1 = CHR ''f'' then CHR 0x0C
           else if escapeChar c ! 1 = CHR ''n'' then CHR 0x0A
           else if escapeChar c ! 1 = CHR ''r'' then CHR 0x0D
           else CHR 0x09))"
proof -
  consider "c = CHR 0x22" | "c = CHR 0x5C" | "c = CHR 0x08" | "c = CHR 0x0C" | "c = CHR 0x0A"
    | "c = CHR 0x0D" | "c = CHR 0x09"
    | "c \<noteq> CHR 0x22" "c \<noteq> CHR 0x5C" "c \<noteq> CHR 0x08" "c \<noteq> CHR 0x0C" "c \<noteq> CHR 0x0A"
      "c \<noteq> CHR 0x0D" "c \<noteq> CHR 0x09" "(of_char c :: nat) < 0x20"
    using assms by argo
  then show ?thesis
    by cases (simp_all add: escapeChar_def hex2_def)
qed

lemma escapeChar_prefix_free:
  assumes "escapeChar c @ x = escapeChar d @ y"
  shows "c = d \<and> x = y"
proof -
  define esc where "esc = (\<lambda>c :: char. c = CHR 0x22 \<or> c = CHR 0x5C \<or> (of_char c :: nat) < 0x20)"
  define code where "code = (\<lambda>e :: char. if e = CHR 0x22 then CHR 0x22
           else if e = CHR 0x5C then CHR 0x5C
           else if e = CHR ''b'' then CHR 0x08
           else if e = CHR ''f'' then CHR 0x0C
           else if e = CHR ''n'' then CHR 0x0A
           else if e = CHR ''r'' then CHR 0x0D
           else CHR 0x09)"
  have plain: "escapeChar c = [c] \<and> c \<noteq> CHR 0x5C" if "\<not> esc c" for c
    using that unfolding esc_def by (simp add: escapeChar_plain)
  have escaped: "escapeChar c = CHR 0x5C # escapeChar c ! 1 # drop 2 (escapeChar c) \<and>
     (escapeChar c ! 1 = CHR ''u'' \<and> drop 2 (escapeChar c) = ''00'' @ hex2 (of_char c) \<or>
      escapeChar c ! 1 \<noteq> CHR ''u'' \<and> drop 2 (escapeChar c) = [] \<and> c = code (escapeChar c ! 1))"
    if "esc c" for c
    using that escapeChar_escaped [of c] unfolding esc_def code_def by simp
  show ?thesis
  proof (cases "esc c")
    case False
    note c = plain [OF False]
    show ?thesis
    proof (cases "esc d")
      case False
      with assms c plain [OF False] show ?thesis by simp
    next
      case True
      from escaped [OF True] have "escapeChar d = CHR 0x5C # escapeChar d ! 1 # drop 2 (escapeChar d)"
        by (rule conjunct1)
      then have "hd (escapeChar d @ y) = CHR 0x5C"
        by (metis append_Cons list.sel(1))
      moreover from c have "hd (escapeChar c @ x) = c" by simp
      ultimately have "c = CHR 0x5C" using assms by simp
      with c show ?thesis by simp
    qed
  next
    case True
    define e where "e = escapeChar c ! 1"
    define rest where "rest = drop 2 (escapeChar c)"
    from escaped [OF True] have c: "escapeChar c = CHR 0x5C # e # rest"
      and ce: "e = CHR ''u'' \<and> rest = ''00'' @ hex2 (of_char c) \<or>
        e \<noteq> CHR ''u'' \<and> rest = [] \<and> c = code e"
      unfolding e_def rest_def by (rule conjunct1, rule conjunct2)
    show ?thesis
    proof (cases "esc d")
      case False
      with assms c plain [OF False] show ?thesis by simp
    next
      case True
      define e' where "e' = escapeChar d ! 1"
      define rest' where "rest' = drop 2 (escapeChar d)"
      from escaped [OF True] have d: "escapeChar d = CHR 0x5C # e' # rest'"
        and de: "e' = CHR ''u'' \<and> rest' = ''00'' @ hex2 (of_char d) \<or>
          e' \<noteq> CHR ''u'' \<and> rest' = [] \<and> d = code e'"
        unfolding e'_def rest'_def by (rule conjunct1, rule conjunct2)
      from assms c d have e: "e' = e" and r: "rest @ x = rest' @ y" by simp_all
      show ?thesis
      proof (cases "e = CHR ''u''")
        case True
        with ce de e have "rest = ''00'' @ hex2 (of_char c)" "rest' = ''00'' @ hex2 (of_char d)"
          by simp_all
        with r have "hex2 (of_char c) @ x = hex2 (of_char d) @ y" by simp
        from hex2_append_inj [OF of_char_less_256 of_char_less_256 this] show ?thesis
          by simp
      next
        case False
        with ce de e have "rest = []" "rest' = []" "c = d"
          by simp_all
        with r show ?thesis by simp
      qed
    qed
  qed
qed

lemma escapeChar_not_quote: "escapeChar c @ x \<noteq> CHR 0x22 # y"
proof (cases "c = CHR 0x22 \<or> c = CHR 0x5C \<or> (of_char c :: nat) < 0x20")
  case True
  from escapeChar_escaped [OF this]
  have "escapeChar c = CHR 0x5C # escapeChar c ! 1 # drop 2 (escapeChar c)"
    by (rule conjunct1)
  then have "hd (escapeChar c @ x) = CHR 0x5C"
    by (metis append_Cons list.sel(1))
  then show ?thesis by auto
next
  case False
  then show ?thesis by (simp add: escapeChar_plain)
qed

lemma escaped_prefix_free:
  "concat (map escapeChar s) @ CHR 0x22 # x = concat (map escapeChar t) @ CHR 0x22 # y \<Longrightarrow>
   s = t \<and> x = y"
proof (induction s arbitrary: t)
  case Nil
  show ?case
  proof (cases t)
    case Nil
    with Nil.prems show ?thesis by simp
  next
    case (Cons d t')
    with Nil.prems escapeChar_not_quote [of d "concat (map escapeChar t') @ CHR 0x22 # y" x]
    show ?thesis by simp
  qed
next
  case (Cons c s)
  show ?case
  proof (cases t)
    case Nil
    with Cons.prems escapeChar_not_quote [of c "concat (map escapeChar s) @ CHR 0x22 # x" y]
    show ?thesis by simp
  next
    case (Cons d t')
    with Cons.prems have "escapeChar c @ (concat (map escapeChar s) @ CHR 0x22 # x) =
        escapeChar d @ (concat (map escapeChar t') @ CHR 0x22 # y)"
      by simp
    from escapeChar_prefix_free [OF this] Cons.IH [of t'] Cons show ?thesis
      by simp
  qed
qed

lemma quoteJSON_prefix_free: "quoteJSON s @ x = quoteJSON t @ y \<Longrightarrow> s = t \<and> x = y"
  using escaped_prefix_free [of s x t y] by (simp add: quoteJSON_def)

lemma quoteJSON_Cons: "quoteJSON s = CHR 0x22 # concat (map escapeChar s) @ [CHR 0x22]"
  by (simp add: quoteJSON_def)

lemma valueText_prefix_free:
  assumes "valueText v @ x = valueText w @ y"
  shows "(case v of Undefined \<Rightarrow> Null | Null \<Rightarrow> Null | Str s \<Rightarrow> Str s) =
         (case w of Undefined \<Rightarrow> Null | Null \<Rightarrow> Null | Str s \<Rightarrow> Str s) \<and> x = y"
proof (cases v)
  case (Str s)
  show ?thesis
  proof (cases w)
    case (Str t)
    with assms \<open>v = Str s\<close> quoteJSON_prefix_free [of s x t y] show ?thesis by simp
  qed (use assms Str in \<open>simp_all add: quoteJSON_Cons\<close>)
next
  case Undefined
  with assms show ?thesis by (cases w) (simp_all add: quoteJSON_Cons)
next
  case Null
  with assms show ?thesis by (cases w) (simp_all add: quoteJSON_Cons)
qed

lemma pairText_prefix_free:
  assumes "pairText p @ x = pairText q @ y"
  shows "asWritten p = asWritten q \<and> x = y"
proof -
  from assms have "quoteJSON (fst p) @ ('','' @ valueText (snd p) @ '']'' @ x) =
      quoteJSON (fst q) @ ('','' @ valueText (snd q) @ '']'' @ y)"
    by (simp add: pairText_def)
  from quoteJSON_prefix_free [OF this]
  have k: "fst p = fst q" and "valueText (snd p) @ ('']'' @ x) = valueText (snd q) @ ('']'' @ y)"
    by simp_all
  from valueText_prefix_free [OF this(2)] k show ?thesis
    by (simp add: asWritten_def)
qed

lemma pairText_Cons: "\<exists>rest. pairText p = CHR ''['' # rest"
  by (simp add: pairText_def)

lemma join_Cons_pairText:
  "join '','' (map pairText (p # ps)) @ z =
     pairText p @ (if ps = [] then z else '','' @ join '','' (map pairText ps) @ z)"
  by (cases ps) simp_all

lemma joined_inj:
  "join '','' (map pairText ps) @ '']'' @ x = join '','' (map pairText qs) @ '']'' @ y \<Longrightarrow>
   map asWritten ps = map asWritten qs \<and> x = y"
proof (induction ps arbitrary: qs)
  case Nil
  show ?case
  proof (cases qs)
    case Nil
    with Nil.prems show ?thesis by simp
  next
    case (Cons q qs')
    from pairText_Cons [of q] obtain rest where "pairText q = CHR ''['' # rest" by blast
    with Nil.prems Cons join_Cons_pairText [of q qs' "'']'' @ y"] show ?thesis
      by simp
  qed
next
  case (Cons p ps)
  show ?case
  proof (cases qs)
    case Nil
    from pairText_Cons [of p] obtain rest where "pairText p = CHR ''['' # rest" by blast
    with Cons.prems Nil join_Cons_pairText [of p ps "'']'' @ x"] show ?thesis
      by simp
  next
    case (Cons q qs')
    with Cons.prems have "pairText p @ (if ps = [] then '']'' @ x else '','' @ join '','' (map pairText ps) @ '']'' @ x) =
        pairText q @ (if qs' = [] then '']'' @ y else '','' @ join '','' (map pairText qs') @ '']'' @ y)"
      by (simp only: join_Cons_pairText)
    from pairText_prefix_free [OF this]
    have pq: "asWritten p = asWritten q"
      and r: "(if ps = [] then '']'' @ x else '','' @ join '','' (map pairText ps) @ '']'' @ x) =
        (if qs' = [] then '']'' @ y else '','' @ join '','' (map pairText qs') @ '']'' @ y)"
      by simp_all
    show ?thesis
    proof (cases "ps = []")
      case True
      with r have "qs' = [] \<and> x = y" by (cases "qs' = []") simp_all
      with True pq Cons show ?thesis by simp
    next
      case False
      with r have q: "qs' \<noteq> []" by (cases "qs' = []") simp_all
      with False r have "join '','' (map pairText ps) @ '']'' @ x = join '','' (map pairText qs') @ '']'' @ y"
        by simp
      from Cons.IH [OF this] pq Cons show ?thesis by simp
    qed
  qed
qed

lemma JSON_stringify_inj:
  "JSON_stringify ps = JSON_stringify qs \<Longrightarrow> map asWritten ps = map asWritten qs"
  using joined_inj [of ps "[]" qs "[]"] by (simp add: JSON_stringify_def)

section \<open>A leaf call on its own is the sequential base case\<close>

text \<open>
  The step function of the leaf calls and the base case of the sequential code are two
  readings of lines 163-207. They agree: a single leaf call, started with its first
  request on the network and resumed until it ends, has exactly the results of
  \<open>fetchBase\<close>, the state and the error included, and it does not end when \<open>fetchBase\<close>
  does not return.
\<close>

lemma counted_simps [simp]:
  "counted None = None"
  "counted (Some (Inl e)) = Some (Inl e)"
  "counted (Some (Inr st)) = Some (Inr (st\<lparr>chunksFetched := chunksFetched st + 1\<rparr>))"
  by (simp_all add: counted_def)

lemma fetchBase_restOfCall:
  "fetchBase r at prefix st =
     restOfCall r at (AwaitFirstKeys prefix) (send (KeysPaged prefix page None at) st)"
  by (auto simp: fetchBase_def firstPage_def Let_def counted_def
      split: sum.splits option.splits)

lemma fetchLoop_short: "length keys \<noteq> page \<Longrightarrow> fetchLoop r at prefix keys st = Some (Inr st)"
  by (simp add: fetchLoop.simps)

lemma fetchLoop_Nil: "fetchLoop r at prefix [] st = Some (Inr st)"
  by (simp add: fetchLoop.simps page_def)

lemma fetchLoop_full:
  "length keys = page \<Longrightarrow>
   counted (fetchLoop r at prefix keys st) =
     restOfCall r at (AwaitNextKeys prefix (keys ! (length keys - 1)))
       (send (KeysPaged prefix page (Some (keys ! (length keys - 1))) at)
          (console_log (KeysFetched (total_keys_count st + length keys))
             (st\<lparr>total_keys_count := total_keys_count st + length keys\<rparr>)))"
  by (subst fetchLoop.simps) (auto simp: nextPage_def Let_def split: sum.splits)

lemma restOfCall_thrown:
  "resume r at t st = Inl e \<Longrightarrow> restOfCall r at t st = Some (Inl e)"
  by (cases t) (auto simp: Let_def split: sum.splits if_splits)

lemma restOfCall_resume:
  assumes "resume r at t st = Inr (t', st')"
  shows "restOfCall r at t st = restOfCall r at t' st'"
proof (cases t)
  case (AwaitFirstKeys prefix)
  with assms show ?thesis
    by (auto simp: fetchValues_def fetchLoop_Nil split: sum.splits if_splits)
next
  case (AwaitValues prefix keys)
  with assms show ?thesis
    by (auto simp: Let_def fetchLoop_short fetchLoop_full split: sum.splits if_splits)
next
  case (AwaitNextKeys prefix cursor)
  with assms show ?thesis
    by (auto simp: fetchValues_def fetchLoop_Nil split: sum.splits if_splits)
next
  case Finished
  with assms show ?thesis by simp
qed

lemma awaitAll_single:
  assumes "awaitAll r at ts st res" and "ts = [t]"
  shows "restOfCall r at t st = Some res"
  using assms
proof (induction arbitrary: t rule: awaitAll.induct)
  case (finished ts st)
  then show ?case by simp
next
  case (thrown i ts st e)
  then show ?case by (simp add: restOfCall_thrown)
next
  case (step i ts st t' st' res)
  from step.prems step.hyps(1) have i: "i = 0" by simp
  with step.prems step.hyps(3) have "resume r at t st = Inr (t', st')" by simp
  from restOfCall_resume [OF this] step.IH [of t'] step.prems i show ?case by simp
qed


lemma awaitAll_step1:
  assumes "t \<noteq> Finished" and "resume r at t st = Inr (t', st')"
    and "awaitAll r at [t'] st' res"
  shows "awaitAll r at [t] st res"
  using awaitAll.step [of 0 "[t]" r at st t' st' res] assms by simp

lemma awaitAll_thrown1:
  assumes "t \<noteq> Finished" and "resume r at t st = Inl e"
  shows "awaitAll r at [t] st (Inl e)"
  using awaitAll.thrown [of 0 "[t]" r at st e] assms by simp

lemma awaitAll_Finished: "awaitAll r at [Finished] st (Inr st)"
  by (rule awaitAll.finished) simp

lemma resume_values:
  assumes "state_queryStorageAt r keys at = Inr vals"
  shows "resume r at (AwaitValues prefix keys) st =
     Inr (afterPage prefix keys, pageDone at prefix keys (receiveValues keys vals st))"
  using assms by (simp add: afterPage_def pageDone_def Let_def)

lemma fetchLoop_single:
  assumes "fetchLoop r at prefix keys st = Some res"
  shows "awaitAll r at [afterPage prefix keys] (pageDone at prefix keys st)
     (map_sum id (\<lambda>st. st\<lparr>chunksFetched := chunksFetched st + 1\<rparr>) res)"
proof -
  define P where "P = (\<lambda>r at prefix keys st (res :: error + state).
     awaitAll r at [afterPage prefix keys] (pageDone at prefix keys st)
       (map_sum id (\<lambda>st. st\<lparr>chunksFetched := chunksFetched st + 1\<rparr>) res))"
  have "P r at prefix keys st res"
  proof (rule fetchLoop.raw_induct [where P = P, OF _ assms])
    fix loop r at prefix keys st res
    assume ih: "\<And>r at prefix keys st res. loop r at prefix keys st = Some res \<Longrightarrow> P r at prefix keys st res"
      and eq: "(if length keys = page
         then case nextPage r at prefix keys st of
                Inl e \<Rightarrow> Some (Inl e)
              | Inr (keys', st') \<Rightarrow> loop r at prefix keys' st'
         else Some (Inr st)) = Some res"
    show "P r at prefix keys st res"
    proof (cases "length keys = page")
      case False
      with eq have "res = Inr st" by simp
      with False show ?thesis
        by (simp add: P_def afterPage_def pageDone_def awaitAll_Finished)
    next
      case True
      define c where "c = keys ! (length keys - 1)"
      define st2 where "st2 = pageDone at prefix keys st"
      have t: "afterPage prefix keys = AwaitNextKeys prefix c"
        using True by (simp add: afterPage_def c_def)
      have ne: "AwaitNextKeys prefix c \<noteq> Finished"
        by simp
      have np: "nextPage r at prefix keys st =
         (case state_getKeysPaged r prefix page (Some c) at of
            Inl e \<Rightarrow> Inl e
          | Inr keys' \<Rightarrow>
              if length keys' > 0
              then (case fetchValues r at keys' st2 of
                      Inl e \<Rightarrow> Inl e
                    | Inr st3 \<Rightarrow> Inr (keys', st3))
              else Inr (keys', st2))"
        using True by (auto simp: nextPage_def Let_def c_def st2_def pageDone_def split: sum.splits)
      have "awaitAll r at [AwaitNextKeys prefix c] st2
         (map_sum id (\<lambda>st. st\<lparr>chunksFetched := chunksFetched st + 1\<rparr>) res)"
      proof (cases "state_getKeysPaged r prefix page (Some c) at")
        case (Inl e)
        with eq True np have "res = Inl e" by simp
        with Inl show ?thesis
          by (simp add: awaitAll_thrown1)
      next
        case (Inr keys')
        show ?thesis
        proof (cases "keys' = []")
          case True
          with eq \<open>length keys = page\<close> np Inr have "loop r at prefix [] st2 = Some res"
            by simp
          from ih [OF this] have aw: "awaitAll r at [afterPage prefix []] (pageDone at prefix [] st2)
             (map_sum id (\<lambda>st. st\<lparr>chunksFetched := chunksFetched st + 1\<rparr>) res)"
            by (simp add: P_def)
          have rs: "resume r at (AwaitNextKeys prefix c) st2 =
              Inr (afterPage prefix [], pageDone at prefix [] st2)"
            using Inr True by (simp add: afterPage_Nil pageDone_def page_def)
          from ne rs aw show ?thesis
            by (rule awaitAll_step1)
        next
          case False
          have s1: "resume r at (AwaitNextKeys prefix c) st2 =
              Inr (AwaitValues prefix keys', send (StorageAt keys' at) st2)"
            using Inr False by simp
          have nv: "AwaitValues prefix keys' \<noteq> Finished"
            by simp
          have "awaitAll r at [AwaitValues prefix keys'] (send (StorageAt keys' at) st2)
             (map_sum id (\<lambda>st. st\<lparr>chunksFetched := chunksFetched st + 1\<rparr>) res)"
          proof (cases "state_queryStorageAt r keys' at")
            case (Inl e)
            with eq \<open>length keys = page\<close> np Inr False have "res = Inl e"
              by (simp add: fetchValues_def)
            with Inl show ?thesis
              by (simp add: awaitAll_thrown1)
          next
            case (Inr vals)
            define st3 where "st3 = receiveValues keys' vals (send (StorageAt keys' at) st2)"
            from eq \<open>length keys = page\<close> np \<open>state_getKeysPaged r prefix page (Some c) at = Inr keys'\<close>
              False Inr
            have "loop r at prefix keys' st3 = Some res"
              by (simp add: fetchValues_def st3_def)
            from ih [OF this] have aw: "awaitAll r at [afterPage prefix keys'] (pageDone at prefix keys' st3)
               (map_sum id (\<lambda>st. st\<lparr>chunksFetched := chunksFetched st + 1\<rparr>) res)"
              by (simp add: P_def)
            have rs: "resume r at (AwaitValues prefix keys') (send (StorageAt keys' at) st2) =
                Inr (afterPage prefix keys', pageDone at prefix keys' st3)"
              unfolding st3_def by (rule resume_values [OF Inr])
            from nv rs aw show ?thesis
              by (rule awaitAll_step1)
          qed
          with ne s1 show ?thesis
            by (rule awaitAll_step1)
        qed
      qed
      then show ?thesis
        by (simp add: P_def t st2_def)
    qed
  qed
  then show ?thesis unfolding P_def .
qed

lemma counted_SomeD:
  assumes "counted x = Some res"
  shows "\<exists>res0. x = Some res0 \<and>
     res = map_sum id (\<lambda>st. st\<lparr>chunksFetched := chunksFetched st + 1\<rparr>) res0"
  using assms by (auto simp: counted_def)

lemma restOfCall_values:
  assumes "restOfCall r at (AwaitValues prefix keys) st = Some res"
  shows "awaitAll r at [AwaitValues prefix keys] st res"
proof (cases "state_queryStorageAt r keys at")
  case (Inl e)
  with assms have "res = Inl e" by simp
  with Inl show ?thesis by (simp add: awaitAll_thrown1)
next
  case (Inr vals)
  with assms have "counted (fetchLoop r at prefix keys (receiveValues keys vals st)) = Some res"
    by simp
  from counted_SomeD [OF this] obtain res0
    where l: "fetchLoop r at prefix keys (receiveValues keys vals st) = Some res0"
      and r: "res = map_sum id (\<lambda>st. st\<lparr>chunksFetched := chunksFetched st + 1\<rparr>) res0"
    by blast
  have "AwaitValues prefix keys \<noteq> Finished"
    by simp
  from this resume_values [OF Inr] fetchLoop_single [OF l] show ?thesis
    unfolding r by (rule awaitAll_step1)
qed

lemma restOfCall_keys:
  assumes "t \<noteq> Finished"
    and "\<And>t' st'. resume r at t st = Inr (t', st') \<Longrightarrow>
           (\<exists>prefix keys. t' = AwaitValues prefix keys) \<or> t' = Finished"
    and "restOfCall r at t st = Some res"
  shows "awaitAll r at [t] st res"
proof (cases "resume r at t st")
  case (Inl e)
  from restOfCall_thrown [OF this] assms(3) have "res = Inl e" by simp
  with assms(1) Inl show ?thesis by (simp add: awaitAll_thrown1)
next
  case (Inr p)
  obtain t' st' where p: "p = (t', st')" by (cases p)
  from Inr p have s: "resume r at t st = Inr (t', st')" by simp
  from restOfCall_resume [OF s] assms(3) have r': "restOfCall r at t' st' = Some res"
    by simp
  from assms(2) [OF s] have "awaitAll r at [t'] st' res"
  proof
    assume "\<exists>prefix keys. t' = AwaitValues prefix keys"
    then obtain prefix keys where "t' = AwaitValues prefix keys" by blast
    with r' show ?thesis by (simp only: restOfCall_values)
  next
    assume f: "t' = Finished"
    with r' have "res = Inr st'" by simp
    with f show ?thesis by (simp add: awaitAll_Finished)
  qed
  with assms(1) s show ?thesis by (rule awaitAll_step1)
qed

lemma restOfCall_single:
  assumes "restOfCall r at t st = Some res"
  shows "awaitAll r at [t] st res"
proof (cases t)
  case (AwaitFirstKeys prefix)
  then have "t \<noteq> Finished"
    and "\<And>t' st'. resume r at t st = Inr (t', st') \<Longrightarrow>
           (\<exists>prefix keys. t' = AwaitValues prefix keys) \<or> t' = Finished"
    by (auto split: sum.splits if_splits)
  from this assms show ?thesis by (rule restOfCall_keys)
next
  case (AwaitValues prefix keys)
  from assms show ?thesis
    unfolding AwaitValues by (rule restOfCall_values)
next
  case (AwaitNextKeys prefix c)
  then have "t \<noteq> Finished"
    and "\<And>t' st'. resume r at t st = Inr (t', st') \<Longrightarrow>
           (\<exists>prefix keys. t' = AwaitValues prefix keys) \<or> t' = Finished"
    by (auto split: sum.splits if_splits)
  from this assms show ?thesis by (rule restOfCall_keys)
next
  case Finished
  with assms have "res = Inr st" by simp
  with Finished show ?thesis by (simp add: awaitAll_Finished)
qed

lemma single_leaf_agrees:
  "awaitAll r at [AwaitFirstKeys prefix] (send (KeysPaged prefix page None at) st) res \<longleftrightarrow>
   fetchBase r at prefix st = Some res"
proof
  assume "awaitAll r at [AwaitFirstKeys prefix] (send (KeysPaged prefix page None at) st) res"
  from awaitAll_single [OF this refl] show "fetchBase r at prefix st = Some res"
    by (simp add: fetchBase_restOfCall)
next
  assume "fetchBase r at prefix st = Some res"
  then have "restOfCall r at (AwaitFirstKeys prefix) (send (KeysPaged prefix page None at) st) = Some res"
    by (simp add: fetchBase_restOfCall)
  then show "awaitAll r at [AwaitFirstKeys prefix] (send (KeysPaged prefix page None at) st) res"
    by (rule restOfCall_single)
qed

section \<open>The splice on a document\<close>

lemma map_of_fold_update:
  "map_of (fold (\<lambda>(key, val). AList.update key val) xs al) = map_of al ++ map_of (rev xs)"
proof (induction xs arbitrary: al)
  case Nil
  then show ?case by simp
next
  case (Cons x xs)
  obtain k v where x: "x = (k, v)" by (cases x)
  have "map_of (AList.update k v al) ++ map_of (rev xs) =
        map_of al ++ (map_of [(k, v)] ++ map_of (rev xs))"
    by (simp add: update_conv' map_add_def fun_eq_iff split: option.splits)
  with Cons show ?case
    by (simp add: x)
qed

lemma someStartsWith_iff:
  "someStartsWith prefixes i \<longleftrightarrow> (\<exists>p \<in> set prefixes. startsWith (fst i) p)"
  by (simp add: someStartsWith_def list_ex_iff)

lemma getTop_Some_iff:
  "getTop spec = Some t \<longleftrightarrow>
     (\<exists>genesis raw. map_of spec ''genesis'' = Some (JObject genesis) \<and>
        map_of genesis ''raw'' = Some (JObject raw) \<and> map_of raw ''top'' = Some t \<and> t \<noteq> JNull)"
  by (auto simp: getTop_def split: option.splits json.splits)

lemma getTop_cong:
  "map_of spec ''genesis'' = map_of spec' ''genesis'' \<Longrightarrow> getTop spec = getTop spec'"
  by (simp add: getTop_def)

lemma map_of_putTop:
  assumes "map_of spec ''genesis'' = Some (JObject genesis)"
    and "map_of genesis ''raw'' = Some (JObject raw)"
  shows "map_of (putTop t spec) =
     (map_of spec)(''genesis'' \<mapsto>
        JObject (AList.update ''raw'' (JObject (AList.update ''top'' t raw)) genesis))"
  using assms by (simp add: putTop_def update_conv')

lemma getTop_putTop:
  assumes "getTop spec = Some t0" and "t \<noteq> JNull"
  shows "getTop (putTop t spec) = Some t"
proof -
  from assms(1) obtain genesis raw
    where g: "map_of spec ''genesis'' = Some (JObject genesis)"
      and r: "map_of genesis ''raw'' = Some (JObject raw)"
    unfolding getTop_Some_iff by blast
  from assms(2) show ?thesis
    unfolding getTop_Some_iff map_of_putTop [OF g r]
    by (simp add: update_conv')
qed

lemma map_of_setNames:
  "map_of (setNames originalSpec forkedSpec) =
     (map_of forkedSpec)
       (''name'' \<mapsto> JString (specName originalSpec @ ''-fork''),
        ''id'' \<mapsto> JString (specId originalSpec @ ''-fork''),
        ''protocolId'' := specProtocolId originalSpec)"
  by (cases "specProtocolId originalSpec")
     (simp_all add: setNames_def Let_def update_conv' delete_conv' fun_eq_iff)

lemma spliceMain_eq:
  "spliceMain originalSpec prefixes storage code alice forkedSpec =
     (case getTop forkedSpec of
        None \<Rightarrow> Inl TypeError
      | Some t \<Rightarrow> Inr (putTop (spliceTop prefixes storage code alice t)
                        (setNames originalSpec forkedSpec)))"
proof -
  have "getTop (setNames originalSpec forkedSpec) = getTop forkedSpec"
    by (rule getTop_cong) (simp add: map_of_setNames)
  then show ?thesis
    by (simp add: spliceMain_def Let_def)
qed

lemma spliceTop_not_Null: "t \<noteq> JNull \<Longrightarrow> spliceTop prefixes storage code alice t \<noteq> JNull"
  by (cases t) (simp_all add: spliceTop_def)

lemma map_of_fixedKeys_other:
  "k \<notin> set (fixedKeyNames alice) \<Longrightarrow> map_of (fixedKeys code alice t) k = map_of t k"
  by (cases "alice = []")
     (simp_all add: fixedKeys_def fixedKeyNames_def Let_def update_conv' delete_conv')

lemma map_of_fixedKeys_set:
  "map_of (fixedKeys code alice t)
     ''0x26aa394eea5630e07c48ae0c9558cef7f9cce9c888469bb1a0dceaa129672ef8'' = None"
  "map_of (fixedKeys code alice t) ''0x3a636f6465'' = Some (JString (''0x'' @ code))"
  "map_of (fixedKeys code alice t)
     ''0x5f3e4907f716ac89b6347d15ececedcaf7dad0317324aecae8744b87fc95f2f3'' =
     Some (JString ''0x02'')"
  by (simp_all add: fixedKeys_def Let_def update_conv' delete_conv')

lemma map_of_fixedKeys_alice:
  assumes "alice \<noteq> []"
  shows "map_of (fixedKeys code alice t)
     ''0x5c0d1176a568c1f92944340dbfed9e9c530ebca703c85910e7164cb7d1c9e47b'' =
     Some (JString ''0xd43593c715fdd31c61141abd04a99fd6822c8558854ccde39a5684e7a56da27d'')"
    "map_of (fixedKeys code alice t)
     ''0x3a2d6c9353500637d8f8e3e0fa0bb1c5ba7fb8745735dc3be2a2c61a72c39e78'' =
     Some (JString ''0x04d43593c715fdd31c61141abd04a99fd6822c8558854ccde39a5684e7a56da27d'')"
    "map_of (fixedKeys code alice t)
     ''0xed25f63942de25ac5253ba64b5eb64d1ba7fb8745735dc3be2a2c61a72c39e78'' =
     Some (JString ''0x04d43593c715fdd31c61141abd04a99fd6822c8558854ccde39a5684e7a56da27d'')"
    "map_of (fixedKeys code alice t)
     ''0xe2e62dd81c48a88f73b6f6463555fd8eba7fb8745735dc3be2a2c61a72c39e78'' =
     Some (JString ''0x04d43593c715fdd31c61141abd04a99fd6822c8558854ccde39a5684e7a56da27d0010a5d4e800000000000000000000000010a5d4e80000000000000000000000'')"
    "map_of (fixedKeys code alice t)
     ''0xaebd463ed9925c488c112434d61debc0ba7fb8745735dc3be2a2c61a72c39e78'' =
     Some (JString ''0x04d43593c715fdd31c61141abd04a99fd6822c8558854ccde39a5684e7a56da27d'')"
  using assms by (simp_all add: fixedKeys_def Let_def update_conv' delete_conv')

lemma insertStorage_lookup:
  "map_of (insertStorage prefixes storage top') =
     map_of top' ++
     map_of (rev (filter (\<lambda>i. \<exists>p \<in> set prefixes. startsWith (fst i) p) storage))"
proof -
  have "filter (someStartsWith prefixes) storage =
      filter (\<lambda>i. \<exists>p \<in> set prefixes. startsWith (fst i) p) storage"
    by (rule filter_cong) (simp_all add: someStartsWith_iff)
  then show ?thesis
    by (simp add: insertStorage_def map_of_fold_update)
qed

lemma insertStorage_other:
  assumes "\<forall>v. (k, v) \<in> set storage \<longrightarrow> \<not> (\<exists>p \<in> set prefixes. startsWith k p)"
  shows "map_of (insertStorage prefixes storage top') k = map_of top' k"
proof -
  let ?sel = "filter (\<lambda>i. \<exists>p \<in> set prefixes. startsWith (fst i) p) storage"
  have "k \<notin> fst ` set (rev ?sel)" using assms by force
  then have "map_of (rev ?sel) k = None" by (simp add: map_of_eq_None_iff)
  then show ?thesis
    by (simp add: insertStorage_lookup map_add_def)
qed

lemma insertStorage_matching:
  assumes "(k, v) \<in> set storage" and "\<exists>p \<in> set prefixes. startsWith k p"
  shows "\<exists>v'. (k, v') \<in> set storage \<and> map_of (insertStorage prefixes storage top') k = Some v'"
proof -
  let ?sel = "filter (\<lambda>i. \<exists>p \<in> set prefixes. startsWith (fst i) p) storage"
  have "k \<in> fst ` set (rev ?sel)" using assms by force
  then obtain v' where v': "map_of (rev ?sel) k = Some v'"
    by (metis map_of_eq_None_iff not_Some_eq)
  then have "(k, v') \<in> set (rev ?sel)" by (rule map_of_SomeD)
  with v' show ?thesis
    by (auto simp: insertStorage_lookup map_add_def)
qed

lemma spliceMain_emptyTopSpec:
  "spliceMain liveSpec [''0xAA''] twoPairs ''c0de'' [] emptyTopSpec =
   Inr [(''name'', JString ''Crab-fork''),
        (''id'', JString ''crab-fork''),
        (''genesis'', JObject
           [(''raw'', JObject
              [(''top'', JObject
                  [(''0xAA01'', JString ''0x01''),
                   (''0x3a636f6465'', JString ''0xc0de''),
                   (''0x5f3e4907f716ac89b6347d15ececedcaf7dad0317324aecae8744b87fc95f2f3'',
                    JString ''0x02'')])])]),
        (''protocolId'', JString ''dar'')]"
  by (simp add: spliceMain_def setNames_def emptyTopSpec_def liveSpec_def twoPairs_def getTop_def
      putTop_def spliceTop_def fixedKeys_def insertStorage_def someStartsWith_def startsWith_def)

lemma spliceMain_devSpec:
  "spliceMain liveSpec [''0xAA''] twoPairs ''c0de'' [] devSpec =
   Inr [(''name'', JString ''Crab-fork''),
        (''id'', JString ''crab-fork''),
        (''bootNodes'', JArray []),
        (''protocolId'', JString ''dar''),
        (''genesis'', JObject
           [(''raw'', JObject
              [(''top'', JObject
                  [(''0x3a636f6465'', JString ''0xc0de''),
                   (''0xAA01'', JString ''0x01''),
                   (''0x5f3e4907f716ac89b6347d15ececedcaf7dad0317324aecae8744b87fc95f2f3'',
                    JString ''0x02'')]),
               (''childrenDefault'', JObject [])])])]"
  by (simp add: spliceMain_def setNames_def devSpec_def liveSpec_def twoPairs_def getTop_def
      putTop_def spliceTop_def fixedKeys_def insertStorage_def someStartsWith_def startsWith_def)

lemma spliceMain_stringTopSpec:
  "spliceMain liveSpec [''0xAA''] twoPairs ''c0de'' [] stringTopSpec =
   Inr [(''name'', JString ''Crab-fork''),
        (''id'', JString ''crab-fork''),
        (''genesis'', JObject [(''raw'', JObject [(''top'', JString ''none'')])]),
        (''protocolId'', JString ''dar'')]"
  by (simp add: spliceMain_def setNames_def stringTopSpec_def liveSpec_def getTop_def
      putTop_def spliceTop_def)

section \<open>A key without a value\<close>

text \<open>
  C6. When the bulk lookup of a page answers \<open>null\<close> for the key at index \<open>i\<close>, the page
  is written with one pair per key, the pair at index \<open>i\<close> is the key with \<open>null\<close>, and
  its text in the snapshot is \<open>[\<close>, the quoted key, \<open>,null]\<close>: the pair is not left out
  and the \<open>null\<close> is written as it is.
\<close>

theorem null_value_written:
  assumes "state_queryStorageAt r keys at = Inr vals"
    and "i < length keys" and "i < length vals" and "vals ! i = Null"
  shows "\<exists>st'. fetchValues r at keys st = Inr st' \<and>
     storageFile st' =
       Some ((case storageFile st of None \<Rightarrow> [] | Some c \<Rightarrow> c) @
             (if separator st then '','' else []) @
             join '','' (map pairText (makePairs keys vals))) \<and>
     length (makePairs keys vals) = length keys \<and>
     makePairs keys vals ! i = (keys ! i, Null) \<and>
     pairText (makePairs keys vals ! i) = ''['' @ quoteJSON (keys ! i) @ '',null]''"
  using assms
  by (simp add: fetchValues_Inr storageFile_receiveValues batchText_eq length_makePairs
      nth_makePairs pairText_Null send_def)

theorem null_value_written_witness:
  \<open>\<exists>st'. fetchValues nullRemote ''0xb10c'' [''0xcc01''] initialState = Inr st' \<and>
     storageFile st' = Some ''["0xcc01",null]''\<close>
  using null_value_written [of nullRemote "[''0xcc01'']" "''0xb10c''" "[Null]" 0 initialState]
  by (simp add: nullRemote_def initialState_def makePairs_def pairText_def quoteJSON_cc01)

section \<open>A bulk lookup that answers with fewer values than keys\<close>

text \<open>
  C10. When the bulk lookup of a page answers with fewer values than keys, the page is
  still written, with one pair per key. For a key at an index past the end of the
  values the pair holds \<open>undefined\<close>, its text in the snapshot is \<open>[\<close>, the quoted key,
  \<open>,null]\<close>, and that is the text of the same key with the value \<open>null\<close>.
\<close>

theorem missing_value_written_null:
  assumes "state_queryStorageAt r keys at = Inr vals" and "length vals < length keys"
  shows "\<exists>st'. fetchValues r at keys st = Inr st' \<and>
     storageFile st' =
       Some ((case storageFile st of None \<Rightarrow> [] | Some c \<Rightarrow> c) @
             (if separator st then '','' else []) @
             join '','' (map pairText (makePairs keys vals))) \<and>
     length (makePairs keys vals) = length keys \<and>
     (\<forall>i. length vals \<le> i \<and> i < length keys \<longrightarrow>
        makePairs keys vals ! i = (keys ! i, Undefined) \<and>
        pairText (makePairs keys vals ! i) = ''['' @ quoteJSON (keys ! i) @ '',null]'' \<and>
        pairText (makePairs keys vals ! i) = pairText (keys ! i, Null))"
  using assms
  by (simp add: fetchValues_Inr storageFile_receiveValues batchText_eq length_makePairs
      nth_makePairs pairText_Null pairText_Undefined send_def)

theorem missing_value_written_null_witness:
  \<open>\<exists>st'. fetchValues shortRemote ''0xb10c'' [''0xaa01'', ''0xaa02'', ''0xaa03''] initialState = Inr st' \<and>
     storageFile st' = Some ''["0xaa01","0x2a"],["0xaa02","0x2a"],["0xaa03",null]'' \<and>
     pairText (''0xaa03'', Undefined) = pairText (''0xaa03'', Null)\<close>
  using missing_value_written_null [of shortRemote "[''0xaa01'', ''0xaa02'', ''0xaa03'']" "''0xb10c''"
      "[Str ''0x2a'', Str ''0x2a'']" initialState]
  by (simp add: shortRemote_def initialState_def makePairs_def pairText_def quoteJSON_examples)

section \<open>The pairs the splice inserts\<close>

text \<open>
  C7, as the code has it. On a document whose \<open>genesis.raw.top\<close> is an object, the splice
  returns a document whose \<open>top\<close> is this: the members \<open>top\<close> had, overridden by the
  snapshot pairs whose key starts with one of the prefixes (a later pair winning over an
  earlier one with the same key, and no other pair inserted), and then the keys of lines
  131-150 deleted or set. So for a key that is not one of lines 131-150: when no
  snapshot pair with that key matches a prefix it keeps what \<open>top\<close> had for it, and when
  one does it is mapped to the value of a snapshot pair with that key. Of the keys of
  lines 131-150, \<open>System.LastRuntimeUpgrade\<close> is absent, \<open>:code\<close> is the runtime code
  and \<open>Staking.ForceEra\<close> is \<open>0x02\<close>, whatever the snapshot has for them; with \<open>ALICE\<close>
  set the five keys of lines 141-150 have their fixed values.
\<close>

theorem splice_inserts_matching_pairs:
  assumes "getTop forkedSpec = Some (JObject top0)"
  shows "\<exists>out top1.
     spliceMain originalSpec prefixes storage code alice forkedSpec = Inr out \<and>
     getTop out = Some (JObject top1) \<and>
     top1 = fixedKeys code alice (insertStorage prefixes storage top0) \<and>
     map_of (insertStorage prefixes storage top0) =
       map_of top0 ++
       map_of (rev (filter (\<lambda>i. \<exists>p \<in> set prefixes. startsWith (fst i) p) storage)) \<and>
     (\<forall>k. k \<notin> set (fixedKeyNames alice) \<longrightarrow>
        map_of top1 k = map_of (insertStorage prefixes storage top0) k) \<and>
     (\<forall>k. k \<notin> set (fixedKeyNames alice) \<and>
          (\<forall>v. (k, v) \<in> set storage \<longrightarrow> \<not> (\<exists>p \<in> set prefixes. startsWith k p)) \<longrightarrow>
        map_of top1 k = map_of top0 k) \<and>
     (\<forall>k v. k \<notin> set (fixedKeyNames alice) \<and> (k, v) \<in> set storage \<and>
          (\<exists>p \<in> set prefixes. startsWith k p) \<longrightarrow>
        (\<exists>v'. (k, v') \<in> set storage \<and> map_of top1 k = Some v')) \<and>
     map_of top1 ''0x26aa394eea5630e07c48ae0c9558cef7f9cce9c888469bb1a0dceaa129672ef8'' = None \<and>
     map_of top1 ''0x3a636f6465'' = Some (JString (''0x'' @ code)) \<and>
     map_of top1 ''0x5f3e4907f716ac89b6347d15ececedcaf7dad0317324aecae8744b87fc95f2f3'' =
       Some (JString ''0x02'') \<and>
     (alice \<noteq> [] \<longrightarrow>
        map_of top1 ''0x5c0d1176a568c1f92944340dbfed9e9c530ebca703c85910e7164cb7d1c9e47b'' =
          Some (JString ''0xd43593c715fdd31c61141abd04a99fd6822c8558854ccde39a5684e7a56da27d'') \<and>
        map_of top1 ''0x3a2d6c9353500637d8f8e3e0fa0bb1c5ba7fb8745735dc3be2a2c61a72c39e78'' =
          Some (JString ''0x04d43593c715fdd31c61141abd04a99fd6822c8558854ccde39a5684e7a56da27d'') \<and>
        map_of top1 ''0xed25f63942de25ac5253ba64b5eb64d1ba7fb8745735dc3be2a2c61a72c39e78'' =
          Some (JString ''0x04d43593c715fdd31c61141abd04a99fd6822c8558854ccde39a5684e7a56da27d'') \<and>
        map_of top1 ''0xe2e62dd81c48a88f73b6f6463555fd8eba7fb8745735dc3be2a2c61a72c39e78'' =
          Some (JString ''0x04d43593c715fdd31c61141abd04a99fd6822c8558854ccde39a5684e7a56da27d0010a5d4e800000000000000000000000010a5d4e80000000000000000000000'') \<and>
        map_of top1 ''0xaebd463ed9925c488c112434d61debc0ba7fb8745735dc3be2a2c61a72c39e78'' =
          Some (JString ''0x04d43593c715fdd31c61141abd04a99fd6822c8558854ccde39a5684e7a56da27d''))"
proof -
  define ins where "ins = insertStorage prefixes storage top0"
  define top1 where "top1 = fixedKeys code alice ins"
  define out where "out = putTop (JObject top1) (setNames originalSpec forkedSpec)"
  have run: "spliceMain originalSpec prefixes storage code alice forkedSpec = Inr out"
    using assms by (simp add: spliceMain_eq spliceTop_def out_def top1_def ins_def)
  have "getTop (setNames originalSpec forkedSpec) = Some (JObject top0)"
    using assms getTop_cong [of "setNames originalSpec forkedSpec" forkedSpec]
    by (simp add: map_of_setNames)
  then have g: "getTop out = Some (JObject top1)"
    unfolding out_def by (rule getTop_putTop) simp
  have o: "\<forall>k. k \<notin> set (fixedKeyNames alice) \<longrightarrow> map_of top1 k = map_of ins k"
    by (simp add: top1_def map_of_fixedKeys_other)
  have a: "\<forall>k. k \<notin> set (fixedKeyNames alice) \<and>
          (\<forall>v. (k, v) \<in> set storage \<longrightarrow> \<not> (\<exists>p \<in> set prefixes. startsWith k p)) \<longrightarrow>
        map_of top1 k = map_of top0 k"
    using o insertStorage_other [of _ storage prefixes top0] unfolding ins_def by metis
  have b: "\<exists>v'. (k, v') \<in> set storage \<and> map_of top1 k = Some v'"
    if "k \<notin> set (fixedKeyNames alice) \<and> (k, v) \<in> set storage \<and>
        (\<exists>p \<in> set prefixes. startsWith k p)" for k v
  proof -
    from that insertStorage_matching [of k v storage prefixes top0]
    obtain v' where "(k, v') \<in> set storage" "map_of ins k = Some v'"
      unfolding ins_def by blast
    with o that show ?thesis by auto
  qed
  have f: "map_of top1 ''0x26aa394eea5630e07c48ae0c9558cef7f9cce9c888469bb1a0dceaa129672ef8'' = None"
    "map_of top1 ''0x3a636f6465'' = Some (JString (''0x'' @ code))"
    "map_of top1 ''0x5f3e4907f716ac89b6347d15ececedcaf7dad0317324aecae8744b87fc95f2f3'' =
       Some (JString ''0x02'')"
    unfolding top1_def by (rule map_of_fixedKeys_set)+
  have al: "alice \<noteq> [] \<longrightarrow>
        map_of top1 ''0x5c0d1176a568c1f92944340dbfed9e9c530ebca703c85910e7164cb7d1c9e47b'' =
          Some (JString ''0xd43593c715fdd31c61141abd04a99fd6822c8558854ccde39a5684e7a56da27d'') \<and>
        map_of top1 ''0x3a2d6c9353500637d8f8e3e0fa0bb1c5ba7fb8745735dc3be2a2c61a72c39e78'' =
          Some (JString ''0x04d43593c715fdd31c61141abd04a99fd6822c8558854ccde39a5684e7a56da27d'') \<and>
        map_of top1 ''0xed25f63942de25ac5253ba64b5eb64d1ba7fb8745735dc3be2a2c61a72c39e78'' =
          Some (JString ''0x04d43593c715fdd31c61141abd04a99fd6822c8558854ccde39a5684e7a56da27d'') \<and>
        map_of top1 ''0xe2e62dd81c48a88f73b6f6463555fd8eba7fb8745735dc3be2a2c61a72c39e78'' =
          Some (JString ''0x04d43593c715fdd31c61141abd04a99fd6822c8558854ccde39a5684e7a56da27d0010a5d4e800000000000000000000000010a5d4e80000000000000000000000'') \<and>
        map_of top1 ''0xaebd463ed9925c488c112434d61debc0ba7fb8745735dc3be2a2c61a72c39e78'' =
          Some (JString ''0x04d43593c715fdd31c61141abd04a99fd6822c8558854ccde39a5684e7a56da27d'')"
    unfolding top1_def using map_of_fixedKeys_alice [of alice code ins] by simp
  have l: "map_of ins =
       map_of top0 ++
       map_of (rev (filter (\<lambda>i. \<exists>p \<in> set prefixes. startsWith (fst i) p) storage))"
    unfolding ins_def by (rule insertStorage_lookup)
  have t: "top1 = fixedKeys code alice ins"
    by (rule top1_def)
  show ?thesis
    unfolding ins_def [symmetric]
    apply (rule exI [of _ out], rule exI [of _ top1])
    apply (intro conjI)
    apply (rule run, rule g, rule t, rule l, rule o, rule a)
    using b f al by blast+
qed

theorem splice_inserts_matching_pairs_witness:
  "\<exists>out. spliceMain liveSpec [''0xAA''] twoPairs ''c0de'' [] emptyTopSpec = Inr out \<and>
     getTop out = Some (JObject
       [(''0xAA01'', JString ''0x01''),
        (''0x3a636f6465'', JString ''0xc0de''),
        (''0x5f3e4907f716ac89b6347d15ececedcaf7dad0317324aecae8744b87fc95f2f3'',
         JString ''0x02'')])"
proof -
  have "getTop emptyTopSpec = Some (JObject [])"
    by (simp add: getTop_def emptyTopSpec_def)
  from splice_inserts_matching_pairs [OF this, of liveSpec "[''0xAA'']" twoPairs "''c0de''" "[]"]
  show ?thesis
    by (auto simp: fixedKeys_def insertStorage_def someStartsWith_def startsWith_def twoPairs_def)
qed


text \<open>
  C7 as stated fails on the result of the splice. For the snapshot and the allow-list of
  the example and an empty \<open>top\<close>, the document written has three members in \<open>top\<close>, the
  pair of the snapshot, \<open>:code\<close> and \<open>Staking.ForceEra\<close>, not the pair alone. And a
  snapshot pair whose key starts with a prefix is not always in the result: the pair of
  \<open>System.LastRuntimeUpgrade\<close>, which starts with the prefix of \<open>System\<close>, is deleted.
\<close>

theorem splice_result_counterexample:
  "getTop emptyTopSpec = Some (JObject []) \<and>
   twoPairs = [(''0xAA01'', JString ''0x01''), (''0xBB01'', JString ''0x02'')] \<and>
   spliceMain liveSpec [''0xAA''] twoPairs ''c0de'' [] emptyTopSpec =
     Inr [(''name'', JString ''Crab-fork''),
          (''id'', JString ''crab-fork''),
          (''genesis'', JObject
             [(''raw'', JObject
                [(''top'', JObject
                    [(''0xAA01'', JString ''0x01''),
                     (''0x3a636f6465'', JString ''0xc0de''),
                     (''0x5f3e4907f716ac89b6347d15ececedcaf7dad0317324aecae8744b87fc95f2f3'',
                      JString ''0x02'')])])]),
          (''protocolId'', JString ''dar'')] \<and>
   [(''0xAA01'', JString ''0x01''),
    (''0x3a636f6465'', JString ''0xc0de''),
    (''0x5f3e4907f716ac89b6347d15ececedcaf7dad0317324aecae8744b87fc95f2f3'', JString ''0x02'')] \<noteq>
   [(''0xAA01'', JString ''0x01'')] \<and>
   map_of [(''0xAA01'', JString ''0x01'')] ''0x3a636f6465'' = None \<and>
   someStartsWith [''0x26aa394eea5630e07c48ae0c9558cef7'']
     (''0x26aa394eea5630e07c48ae0c9558cef7f9cce9c888469bb1a0dceaa129672ef8'', JString ''0x01'') \<and>
   spliceMain liveSpec [''0x26aa394eea5630e07c48ae0c9558cef7'']
       [(''0x26aa394eea5630e07c48ae0c9558cef7f9cce9c888469bb1a0dceaa129672ef8'', JString ''0x01'')]
       ''c0de'' [] emptyTopSpec =
     Inr [(''name'', JString ''Crab-fork''),
          (''id'', JString ''crab-fork''),
          (''genesis'', JObject
             [(''raw'', JObject
                [(''top'', JObject
                    [(''0x3a636f6465'', JString ''0xc0de''),
                     (''0x5f3e4907f716ac89b6347d15ececedcaf7dad0317324aecae8744b87fc95f2f3'',
                      JString ''0x02'')])])]),
          (''protocolId'', JString ''dar'')]"
proof -
  have "spliceMain liveSpec [''0x26aa394eea5630e07c48ae0c9558cef7'']
       [(''0x26aa394eea5630e07c48ae0c9558cef7f9cce9c888469bb1a0dceaa129672ef8'', JString ''0x01'')]
       ''c0de'' [] emptyTopSpec =
     Inr [(''name'', JString ''Crab-fork''),
          (''id'', JString ''crab-fork''),
          (''genesis'', JObject
             [(''raw'', JObject
                [(''top'', JObject
                    [(''0x3a636f6465'', JString ''0xc0de''),
                     (''0x5f3e4907f716ac89b6347d15ececedcaf7dad0317324aecae8744b87fc95f2f3'',
                      JString ''0x02'')])])]),
          (''protocolId'', JString ''dar'')]"
    by (simp add: spliceMain_def setNames_def emptyTopSpec_def liveSpec_def getTop_def
        putTop_def spliceTop_def fixedKeys_def insertStorage_def someStartsWith_def startsWith_def)
  moreover have "someStartsWith [''0x26aa394eea5630e07c48ae0c9558cef7'']
     (''0x26aa394eea5630e07c48ae0c9558cef7f9cce9c888469bb1a0dceaa129672ef8'', JString ''0x01'')"
    by (simp add: someStartsWith_def startsWith_def)
  moreover have "getTop emptyTopSpec = Some (JObject [])"
    by (simp add: getTop_def emptyTopSpec_def)
  ultimately show ?thesis
    using spliceMain_emptyTopSpec by (simp add: twoPairs_def)
qed

section \<open>A snapshot file that exists\<close>

lemma fetchPhaseQuick_reuse:
  "storageFile st \<noteq> None \<Longrightarrow>
   fetchPhaseQuick r lvl st res \<longleftrightarrow> res = Inr (console_log ReusingCachedStorage st)"
  by (auto simp: fetchPhaseQuick.simps)

text \<open>
  C9. When \<open>data/storage.json\<close> exists at the start of the fetch phase, the phase returns
  at once, with \<open>QUICK_MODE\<close> unset and set: no call is added to the network (no
  finalized head, no key enumeration, no bulk lookup) and the file is as it was.
\<close>

theorem cached_snapshot_skips_fetch:
  assumes "storageFile st \<noteq> None"
  shows "\<exists>st'. fetchPhase r chunksLevel st = Some (Inr st') \<and>
     fetchPhaseQuick r chunksLevel st (Inr st') \<and>
     (\<forall>res. fetchPhaseQuick r chunksLevel st res \<longrightarrow> res = Inr st') \<and>
     network st' = network st \<and> storageFile st' = storageFile st"
  using assms
  by (simp add: fetchPhase_def fetchPhaseQuick_reuse console_log_def)


theorem cached_snapshot_skips_fetch_witness:
  \<open>\<exists>st1 st2. fetchPhase nullRemote 0 initialState = Some (Inr st1) \<and>
     storageFile st1 = Some ''[["0xcc01",null]]'' \<and>
     fetchPhase nullRemote 0 st1 = Some (Inr st2) \<and>
     fetchPhaseQuick nullRemote 0 st1 (Inr st2) \<and>
     network st2 = network st1 \<and> storageFile st2 = storageFile st1\<close>
proof -
  from fetchPhase_nullRemote_0 obtain st1
    where 1: "fetchPhase nullRemote 0 initialState = Some (Inr st1)"
      and 2: \<open>storageFile st1 = Some ''[["0xcc01",null]]''\<close>
    by blast
  from 2 have "storageFile st1 \<noteq> None" by simp
  from cached_snapshot_skips_fetch [OF this, of nullRemote 0] 1 2 show ?thesis
    by blast
qed

section \<open>The calls of the base case\<close>

lemma servesPages_pagesRemote_513:
  "servesPages (pagesRemote 513) ''0xb10c'' ''0x00'' None [map exampleKey [0..<512], [exampleKey 512]]"
  by (simp add: pagesRemote_def page_def last_map)

lemma fetchBase_emptyRemote:
  "fetchBase emptyRemote at prefix st =
     Some (Inr (send (KeysPaged prefix page None at) st
        \<lparr>chunksFetched := chunksFetched st + 1\<rparr>))"
  by (simp add: fetchBase_def firstPage_def emptyRemote_def fetchLoop.simps page_def)

lemma servesPages_pagesRemote_512:
  "servesPages (pagesRemote 512) ''0xb10c'' ''0x00'' None [map exampleKey [0..<512], []]"
  by (simp add: pagesRemote_def page_def last_map)

lemma keyCalls_pagesRemote_512:
  "map_option (map_sum id keyCalls) (fetchBase (pagesRemote 512) ''0xb10c'' ''0x00'' initialState) =
     Some (Inr 2)"
proof -
  have v: "servesValues (pagesRemote 512) ''0xb10c'' [map exampleKey [0..<512], []]"
    by (simp add: servesValues_def pagesRemote_def)
  from fetchBase_pages [OF servesPages_pagesRemote_512 v, of initialState]
  show ?thesis
    by (auto simp: pagesDone_def keyCalls_def initialState_def)
qed

text \<open>
  C1, as the code has it. When the node serves the keys of a chunk in pages, each of
  512 keys but the last, which is shorter, and the bulk lookups answer, the base case
  returns, and it has made one key-enumeration call per page: \<open>N div 512 + 1\<close> calls
  for \<open>N\<close> keys. That is the ceiling of \<open>N / 512\<close> when 512 does not divide \<open>N\<close>, and
  one more than the ceiling when it does: the last call then returns no key.
\<close>

theorem pagination_calls:
  assumes "servesPages r at prefix None pages" and "servesValues r at pages"
  shows "\<exists>st'. fetchBase r at prefix st = Some (Inr st') \<and>
     keyCalls st' = keyCalls st + (length (concat pages) div page + 1) \<and>
     (\<not> page dvd length (concat pages) \<longrightarrow>
        keyCalls st' = keyCalls st + ceilDiv (length (concat pages)) page) \<and>
     (page dvd length (concat pages) \<longrightarrow>
        keyCalls st' = keyCalls st + ceilDiv (length (concat pages)) page + 1)"
proof -
  from fetchBase_pages [OF assms, of st] obtain st'
    where run: "fetchBase r at prefix st = Some (Inr st')"
      and calls: "keyCalls st' = keyCalls st + length pages"
    by (auto simp: pagesDone_def keyCalls_def)
  from servesPages_count [OF assms(1)]
  have n: "length pages = length (concat pages) div page + 1" .
  show ?thesis
    using run calls n ceilDiv_eq [OF page_pos, of "length (concat pages)"]
      ceilDiv_dvd [OF page_pos, of "length (concat pages)"]
    by auto
qed

theorem pagination_calls_witness:
  "\<exists>st'. fetchBase (pagesRemote 513) ''0xb10c'' ''0x00'' initialState = Some (Inr st') \<and>
     keyCalls st' = 2 \<and> ceilDiv 513 page = 2"
  using pagination_calls [OF servesPages_pagesRemote_513, of initialState]
  by (auto simp: servesValues_def pagesRemote_def page_def keyCalls_def initialState_def)


text \<open>
  C1 as stated fails where 512 divides \<open>N\<close>. A chunk without keys takes one call, not
  none; a chunk of 512 keys takes two calls, not one.
\<close>

theorem ceil_calls_counterexample:
  "servesPages emptyRemote ''0xb10c'' ''0x00'' None [[]] \<and>
   servesValues emptyRemote ''0xb10c'' [[]] \<and>
   fetchBase emptyRemote ''0xb10c'' ''0x00'' initialState =
     Some (Inr (initialState\<lparr>chunksFetched := 1,
       network := [KeysPaged ''0x00'' page None ''0xb10c'']\<rparr>)) \<and>
   keyCalls (initialState\<lparr>chunksFetched := 1,
       network := [KeysPaged ''0x00'' page None ''0xb10c'']\<rparr>) = 1 \<and>
   keyCalls initialState = 0 \<and>
   ceilDiv (length (concat [[] :: string list])) page = 0 \<and>
   servesPages (pagesRemote 512) ''0xb10c'' ''0x00'' None [map exampleKey [0..<512], []] \<and>
   servesValues (pagesRemote 512) ''0xb10c'' [map exampleKey [0..<512], []] \<and>
   map_option (map_sum id keyCalls) (fetchBase (pagesRemote 512) ''0xb10c'' ''0x00'' initialState) =
     Some (Inr 2) \<and>
   ceilDiv (length (concat [map exampleKey [0..<512], []])) page = 1"
proof -
  have "servesPages emptyRemote ''0xb10c'' ''0x00'' None [[]]"
    by (simp add: emptyRemote_def page_def)
  moreover have "servesValues emptyRemote ''0xb10c'' [[]]"
    by (simp add: servesValues_def)
  moreover have "fetchBase emptyRemote ''0xb10c'' ''0x00'' initialState =
     Some (Inr (initialState\<lparr>chunksFetched := 1,
       network := [KeysPaged ''0x00'' page None ''0xb10c'']\<rparr>))"
    by (simp add: fetchBase_emptyRemote send_def initialState_def)
  moreover have "keyCalls (initialState\<lparr>chunksFetched := 1,
       network := [KeysPaged ''0x00'' page None ''0xb10c'']\<rparr>) = 1"
    by (simp add: keyCalls_def)
  moreover have "keyCalls initialState = 0"
    by (simp add: keyCalls_def initialState_def)
  moreover have "ceilDiv (length (concat [[] :: string list])) page = 0"
    by (simp add: ceilDiv_def page_def)
  moreover have "servesValues (pagesRemote 512) ''0xb10c'' [map exampleKey [0..<512], []]"
    by (simp add: servesValues_def pagesRemote_def)
  moreover have "ceilDiv (length (concat [map exampleKey [0..<512], []])) page = 1"
    by (simp add: ceilDiv_def page_def)
  ultimately show ?thesis
    using servesPages_pagesRemote_512 keyCalls_pagesRemote_512 by blast
qed

section \<open>A bulk lookup whose length differs\<close>

text \<open>
  C5. A bulk lookup that answers a page with a list of another length is no error:
  lines 170-181 return, with the line of the two lengths added to the console. And
  when the node serves the pages of a chunk and the bulk lookups answer, the base case
  on a chunk with such a page still returns without an error: the line is on the
  console, one key-enumeration call was made for every page, those after the page
  included, and the chunk is counted as fetched, so that the caller goes on with the
  next chunk.
\<close>

theorem length_mismatch_not_fatal:
  assumes "servesPages r at prefix None pages" and "servesValues r at pages"
    and "p \<in> set pages" and "p \<noteq> []"
    and "state_queryStorageAt r p at = Inr vals" and "length vals \<noteq> length p"
  shows "(\<forall>st0. \<exists>st1. fetchValues r at p st0 = Inr st1 \<and>
        console st1 = console st0 @ [LengthsNotEqual (length vals) (length p)]) \<and>
     (\<exists>st'. fetchBase r at prefix st = Some (Inr st') \<and>
        LengthsNotEqual (length vals) (length p) \<in> set (console st') \<and>
        keyCalls st' = keyCalls st + length pages \<and>
        chunksFetched st' = chunksFetched st + 1)"
proof -
  have page: "\<forall>st0. \<exists>st1. fetchValues r at p st0 = Inr st1 \<and>
      console st1 = console st0 @ [LengthsNotEqual (length vals) (length p)]"
    using assms(5,6) by (simp add: fetchValues_Inr console_receiveValues)
  from fetchBase_pages [OF assms(1,2), of st] obtain st'
    where run: "fetchBase r at prefix st = Some (Inr st')"
      and dn: "pagesDone r at pages st (st'\<lparr>chunksFetched := chunksFetched st\<rparr>)"
      and c: "chunksFetched st' = chunksFetched st + 1"
    by blast
  from dn assms(3-6) have "LengthsNotEqual (length vals) (length p) \<in> set (console st')"
    unfolding pagesDone_def by auto
  moreover from dn have "keyCalls st' = keyCalls st + length pages"
    by (simp add: pagesDone_def keyCalls_def)
  ultimately show ?thesis
    using run c page by blast
qed

theorem length_mismatch_not_fatal_witness:
  "\<exists>st'. fetchBase shortRemote ''0xb10c'' ''0xaa'' initialState = Some (Inr st') \<and>
     LengthsNotEqual 2 3 \<in> set (console st') \<and> keyCalls st' = 1 \<and> chunksFetched st' = 1"
  using length_mismatch_not_fatal [of shortRemote "''0xb10c''" "''0xaa''"
      "[[''0xaa01'', ''0xaa02'', ''0xaa03'']]" "[''0xaa01'', ''0xaa02'', ''0xaa03'']"
      "[Str ''0x2a'', Str ''0x2a'']" initialState]
  by (simp add: shortRemote_def servesValues_def page_def keyCalls_def initialState_def
      numeral_2_eq_2 numeral_3_eq_3)

section \<open>The chunks partition the keys that are long enough\<close>

lemma no_leaf_of_short_key:
  assumes "length bs < d"
  shows "filter (startsWith (prefix @ hexBytes bs)) (leafChunks prefix (int d)) = []"
proof -
  have "\<not> startsWith (prefix @ hexBytes bs) leaf" if "leaf \<in> set (leafChunks prefix (int d))" for leaf
    using leaf_of_key [OF that, of bs] assms by auto
  then show ?thesis
    by (simp add: filter_empty_conv)
qed

lemma hexBytes_code: "hexBytes '':code'' = ''3a636f6465''"
  by (simp add: hexBytes_def hex2_def padStart_def hexDigit_def)

text \<open>
  C2, as the code has it. Above the base case \<open>fetchChunks\<close> calls itself on 256
  children, one level lower, with \<open>QUICK_MODE\<close> unset (in turn) and set (the leaves at
  once): child \<open>i\<close> is the prefix followed by the two lower-case hex digits of \<open>i\<close>, and
  the children are in lexicographic order. At depth \<open>d\<close> the base case runs on the
  \<open>256 ^ d\<close> leaf chunks (the \<open>totalChunks\<close> of line 23), which are in lexicographic
  order. A key of at least \<open>d\<close> bytes starts with the prefix of exactly one leaf chunk; a
  key of fewer than \<open>d\<close> bytes starts with the prefix of none, so no chunk fetches it.
\<close>

theorem leaf_chunks_partition:
  fixes bs :: "char list"
  shows
  "(0 < levelsRemaining \<longrightarrow>
      fetchChunks r at prefix levelsRemaining st =
        forAwait (\<lambda>i. fetchChunks r at (childPrefix prefix i) (levelsRemaining - 1)) [0..<256] st) \<and>
   fst (spawnLeaves at prefix st) = map (\<lambda>i. AwaitFirstKeys (childPrefix prefix i)) [0..<256] \<and>
   (\<forall>i<256. childPrefix prefix i = prefix @ [hexDigit (i div 16), hexDigit (i mod 16)]) \<and>
   sorted_wrt (<) (map (childPrefix prefix) [0..<256]) \<and>
   fetchChunks r at prefix (int d) st = forAwait (fetchBase r at) (leafChunks prefix (int d)) st \<and>
   length (leafChunks prefix (int d)) = 256 ^ d \<and>
   length (leafChunks prefix (int d)) = totalChunks d \<and>
   sorted_wrt (<) (leafChunks prefix (int d)) \<and>
   (d \<le> length bs \<longrightarrow>
      (\<exists>!i. i < 256 ^ d \<and> startsWith (prefix @ hexBytes bs) (leafChunks prefix (int d) ! i))) \<and>
   (length bs < d \<longrightarrow>
      (\<forall>leaf \<in> set (leafChunks prefix (int d)). \<not> startsWith (prefix @ hexBytes bs) leaf))"
proof -
  have a: "0 < levelsRemaining \<longrightarrow>
      fetchChunks r at prefix levelsRemaining st =
        forAwait (\<lambda>i. fetchChunks r at (childPrefix prefix i) (levelsRemaining - 1)) [0..<256] st"
    by (simp add: fetchChunks.simps [of r at prefix levelsRemaining])
  have b: "fst (spawnLeaves at prefix st) = map (\<lambda>i. AwaitFirstKeys (childPrefix prefix i)) [0..<256]"
    by (simp add: spawnLeaves_def)
  have c: "\<forall>i<256. childPrefix prefix i = prefix @ [hexDigit (i div 16), hexDigit (i mod 16)]"
    by (simp add: childPrefix_eq hex2_digits)
  have e: "length bs < d \<longrightarrow>
      (\<forall>leaf \<in> set (leafChunks prefix (int d)). \<not> startsWith (prefix @ hexBytes bs) leaf)"
    using leaf_of_key [of _ prefix d bs] by auto
  have t: "length (leafChunks prefix (int d)) = totalChunks d"
    by (simp add: length_leafChunks totalChunks_def)
  from a b c sorted_children fetchChunks_leafChunks length_leafChunks sorted_leafChunks
    one_leaf_per_key e t
  show ?thesis by blast
qed

theorem leaf_chunks_partition_witness:
  "length (leafChunks ''0x'' 1) = 256 \<and>
   leafChunks ''0x'' 1 ! 58 = ''0x3a'' \<and>
   ''0x'' @ hexBytes '':code'' = ''0x3a636f6465'' \<and>
   startsWith ''0x3a636f6465'' (leafChunks ''0x'' 1 ! 58) \<and>
   (\<exists>!i. i < 256 \<and> startsWith ''0x3a636f6465'' (leafChunks ''0x'' 1 ! i))"
proof -
  have n: "leafChunks ''0x'' 1 ! 58 = ''0x3a''"
    by (simp add: leafChunks_1 childPrefix_eq hex2_digits hexDigit_def)
  have s: "startsWith ''0x3a636f6465'' ''0x3a''"
    by (simp add: startsWith_def)
  from leaf_chunks_partition [where d = 1 and prefix = "''0x''" and bs = "'':code''"]
  show ?thesis
    by (simp add: hexBytes_code n s)
qed

text \<open>
  C2 as stated fails on the keys shorter than the depth: at depth 1 the empty key is in
  no leaf chunk, and at depth 6 the key \<open>:code\<close> of five bytes is in none.
\<close>

theorem partition_gap_counterexample:
  "filter (startsWith (''0x'' @ hexBytes [])) (leafChunks ''0x'' 1) = [] \<and>
   ''0x'' @ hexBytes '':code'' = ''0x3a636f6465'' \<and>
   filter (startsWith ''0x3a636f6465'') (leafChunks ''0x'' 6) = []"
  using no_leaf_of_short_key [of "[]" 1 "''0x''"] no_leaf_of_short_key [of "'':code''" 6 "''0x''"]
  by (simp add: hexBytes_code)

section \<open>What the splice leaves alone\<close>

text \<open>
  C8. The splice throws a TypeError when the document has no \<open>genesis.raw.top\<close>
  (\<open>genesis\<close> or \<open>genesis.raw\<close> is not an object, or \<open>top\<close> is missing or null), and
  otherwise writes a document. In the document written every top-level member other
  than \<open>name\<close>, \<open>id\<close>, \<open>protocolId\<close> and \<open>genesis\<close> is as it was; these three are set from
  the original spec; in \<open>genesis\<close> every member other than \<open>raw\<close> is as it was, in \<open>raw\<close>
  every member other than \<open>top\<close> is as it was, and \<open>top\<close> is: for an object, the old
  object with the snapshot pairs inserted and the keys of lines 131-150 deleted or set;
  for anything else, what it was.
\<close>

theorem splice_frame:
  "(\<forall>genesis raw top0.
      map_of forkedSpec ''genesis'' = Some (JObject genesis) \<and>
      map_of genesis ''raw'' = Some (JObject raw) \<and>
      map_of raw ''top'' = Some top0 \<and> top0 \<noteq> JNull \<longrightarrow>
      (\<exists>out genesis' raw'.
         spliceMain originalSpec prefixes storage code alice forkedSpec = Inr out \<and>
         (\<forall>k. k \<noteq> ''name'' \<and> k \<noteq> ''id'' \<and> k \<noteq> ''protocolId'' \<and> k \<noteq> ''genesis'' \<longrightarrow>
            map_of out k = map_of forkedSpec k) \<and>
         map_of out ''name'' = Some (JString (specName originalSpec @ ''-fork'')) \<and>
         map_of out ''id'' = Some (JString (specId originalSpec @ ''-fork'')) \<and>
         map_of out ''protocolId'' = specProtocolId originalSpec \<and>
         map_of out ''genesis'' = Some (JObject genesis') \<and>
         (\<forall>k. k \<noteq> ''raw'' \<longrightarrow> map_of genesis' k = map_of genesis k) \<and>
         map_of genesis' ''raw'' = Some (JObject raw') \<and>
         (\<forall>k. k \<noteq> ''top'' \<longrightarrow> map_of raw' k = map_of raw k) \<and>
         map_of raw' ''top'' = Some (spliceTop prefixes storage code alice top0) \<and>
         (\<forall>members. top0 = JObject members \<longrightarrow>
            spliceTop prefixes storage code alice top0 =
              JObject (fixedKeys code alice (insertStorage prefixes storage members))) \<and>
         ((\<forall>members. top0 \<noteq> JObject members) \<longrightarrow>
            spliceTop prefixes storage code alice top0 = top0))) \<and>
   (\<not> (\<exists>genesis raw top0.
      map_of forkedSpec ''genesis'' = Some (JObject genesis) \<and>
      map_of genesis ''raw'' = Some (JObject raw) \<and>
      map_of raw ''top'' = Some top0 \<and> top0 \<noteq> JNull) \<longrightarrow>
    spliceMain originalSpec prefixes storage code alice forkedSpec = Inl TypeError)"
proof (intro conjI allI impI)
  fix genesis raw top0
  assume h: "map_of forkedSpec ''genesis'' = Some (JObject genesis) \<and>
      map_of genesis ''raw'' = Some (JObject raw) \<and>
      map_of raw ''top'' = Some top0 \<and> top0 \<noteq> JNull"
  define s3 where "s3 = setNames originalSpec forkedSpec"
  define top1 where "top1 = spliceTop prefixes storage code alice top0"
  define raw' where "raw' = AList.update ''top'' top1 raw"
  define genesis' where "genesis' = AList.update ''raw'' (JObject raw') genesis"
  define out where "out = putTop top1 s3"
  have m3: "map_of s3 = (map_of forkedSpec)
     (''name'' \<mapsto> JString (specName originalSpec @ ''-fork''),
      ''id'' \<mapsto> JString (specId originalSpec @ ''-fork''),
      ''protocolId'' := specProtocolId originalSpec)"
    unfolding s3_def by (rule map_of_setNames)
  from h have "getTop forkedSpec = Some top0"
    unfolding getTop_Some_iff by blast
  then have run: "spliceMain originalSpec prefixes storage code alice forkedSpec = Inr out"
    by (simp add: spliceMain_eq out_def top1_def s3_def)
  have g: "map_of s3 ''genesis'' = Some (JObject genesis)"
    using h by (simp add: m3)
  have r: "map_of genesis ''raw'' = Some (JObject raw)"
    using h by simp
  have mo: "map_of out = (map_of s3)(''genesis'' \<mapsto> JObject genesis')"
    unfolding out_def genesis'_def raw'_def by (rule map_of_putTop [OF g r])
  have 1: "\<forall>k. k \<noteq> ''name'' \<and> k \<noteq> ''id'' \<and> k \<noteq> ''protocolId'' \<and> k \<noteq> ''genesis'' \<longrightarrow>
            map_of out k = map_of forkedSpec k"
    by (simp add: mo m3)
  have 2: "map_of out ''name'' = Some (JString (specName originalSpec @ ''-fork''))"
    "map_of out ''id'' = Some (JString (specId originalSpec @ ''-fork''))"
    "map_of out ''protocolId'' = specProtocolId originalSpec"
    by (simp_all add: mo m3)
  have 3: "map_of out ''genesis'' = Some (JObject genesis')"
    by (simp add: mo)
  have 4: "\<forall>k. k \<noteq> ''raw'' \<longrightarrow> map_of genesis' k = map_of genesis k"
    "map_of genesis' ''raw'' = Some (JObject raw')"
    by (simp_all add: genesis'_def update_conv')
  have 5: "\<forall>k. k \<noteq> ''top'' \<longrightarrow> map_of raw' k = map_of raw k"
    "map_of raw' ''top'' = Some top1"
    by (simp_all add: raw'_def update_conv')
  have 6: "\<forall>members. top0 = JObject members \<longrightarrow>
      top1 = JObject (fixedKeys code alice (insertStorage prefixes storage members))"
    by (simp add: top1_def spliceTop_def)
  have 7: "(\<forall>members. top0 \<noteq> JObject members) \<longrightarrow> top1 = top0"
    by (cases top0) (simp_all add: top1_def spliceTop_def)
  show "\<exists>out genesis' raw'.
         spliceMain originalSpec prefixes storage code alice forkedSpec = Inr out \<and>
         (\<forall>k. k \<noteq> ''name'' \<and> k \<noteq> ''id'' \<and> k \<noteq> ''protocolId'' \<and> k \<noteq> ''genesis'' \<longrightarrow>
            map_of out k = map_of forkedSpec k) \<and>
         map_of out ''name'' = Some (JString (specName originalSpec @ ''-fork'')) \<and>
         map_of out ''id'' = Some (JString (specId originalSpec @ ''-fork'')) \<and>
         map_of out ''protocolId'' = specProtocolId originalSpec \<and>
         map_of out ''genesis'' = Some (JObject genesis') \<and>
         (\<forall>k. k \<noteq> ''raw'' \<longrightarrow> map_of genesis' k = map_of genesis k) \<and>
         map_of genesis' ''raw'' = Some (JObject raw') \<and>
         (\<forall>k. k \<noteq> ''top'' \<longrightarrow> map_of raw' k = map_of raw k) \<and>
         map_of raw' ''top'' = Some (spliceTop prefixes storage code alice top0) \<and>
         (\<forall>members. top0 = JObject members \<longrightarrow>
            spliceTop prefixes storage code alice top0 =
              JObject (fixedKeys code alice (insertStorage prefixes storage members))) \<and>
         ((\<forall>members. top0 \<noteq> JObject members) \<longrightarrow>
            spliceTop prefixes storage code alice top0 = top0)"
    unfolding top1_def [symmetric]
    apply (rule exI [of _ out], rule exI [of _ genesis'], rule exI [of _ raw'])
    apply (intro conjI)
    apply (rule run 1 2 3 4 5 6 7)+
    done
next
  assume "\<not> (\<exists>genesis raw top0.
      map_of forkedSpec ''genesis'' = Some (JObject genesis) \<and>
      map_of genesis ''raw'' = Some (JObject raw) \<and>
      map_of raw ''top'' = Some top0 \<and> top0 \<noteq> JNull)"
  then have "getTop forkedSpec \<noteq> Some t" for t
    unfolding getTop_Some_iff by blast
  then have "getTop forkedSpec = None"
    by (cases "getTop forkedSpec") auto
  then show "spliceMain originalSpec prefixes storage code alice forkedSpec = Inl TypeError"
    by (simp add: spliceMain_eq)
qed

theorem splice_frame_witness:
  "(\<exists>out. spliceMain liveSpec [''0xAA''] twoPairs ''c0de'' [] devSpec = Inr out \<and>
      map_of out ''bootNodes'' = Some (JArray []) \<and>
      map_of out ''name'' = Some (JString ''Crab-fork'')) \<and>
   (\<exists>out raw'. spliceMain liveSpec [''0xAA''] twoPairs ''c0de'' [] stringTopSpec = Inr out \<and>
      map_of out ''genesis'' = Some (JObject [(''raw'', JObject raw')]) \<and>
      map_of raw' ''top'' = Some (JString ''none'')) \<and>
   spliceMain liveSpec [''0xAA''] twoPairs ''c0de'' []
     [(''genesis'', JObject [(''raw'', JObject [(''top'', JNull)])])] = Inl TypeError"
proof -
  note f = splice_frame [of devSpec liveSpec "[''0xAA'']" twoPairs "''c0de''" "[]",
      THEN conjunct1, rule_format,
      of "[(''raw'', JObject
            [(''top'', JObject [(''0x3a636f6465'', JString ''0x00'')]),
             (''childrenDefault'', JObject [])])]"
         "[(''top'', JObject [(''0x3a636f6465'', JString ''0x00'')]),
             (''childrenDefault'', JObject [])]"
         "JObject [(''0x3a636f6465'', JString ''0x00'')]"]
  have a: "\<exists>out. spliceMain liveSpec [''0xAA''] twoPairs ''c0de'' [] devSpec = Inr out \<and>
      map_of out ''bootNodes'' = Some (JArray []) \<and>
      map_of out ''name'' = Some (JString ''Crab-fork'')"
    using f by (simp add: spliceMain_devSpec)
  have b: "\<exists>out raw'. spliceMain liveSpec [''0xAA''] twoPairs ''c0de'' [] stringTopSpec = Inr out \<and>
      map_of out ''genesis'' = Some (JObject [(''raw'', JObject raw')]) \<and>
      map_of raw' ''top'' = Some (JString ''none'')"
    by (simp add: spliceMain_stringTopSpec)
  have c: "spliceMain liveSpec [''0xAA''] twoPairs ''c0de'' []
     [(''genesis'', JObject [(''raw'', JObject [(''top'', JNull)])])] = Inl TypeError"
    by (simp add: spliceMain_def setNames_def liveSpec_def getTop_def)
  from a b c show ?thesis by blast
qed

section \<open>The snapshot is a JSON array\<close>

text \<open>
  C3. A fetch phase that starts without a snapshot file and with \<open>separator\<close> false
  writes \<open>[\<close> before it asks the node for anything. When it returns, with
  \<open>QUICK_MODE\<close> unset or set, it leaves this file: \<open>[\<close>, then the
  batches that were written, none of them empty, with one comma between two batches
  and none before the first, then \<open>]\<close>. That text is what \<open>JSON.stringify\<close> gives for
  the array of all pairs written, and it is \<open>[]\<close> when the node has no keys.
\<close>

theorem snapshot_is_json_array:
  assumes "storageFile st = None" and "\<not> separator st"
    and "fetchPhase r chunksLevel st = Some (Inr st') \<or> fetchPhaseQuick r chunksLevel st (Inr st')"
  shows "storageFile (openSnapshot st) = Some ''['' \<and>
     network (openSnapshot st) = network st @ [FinalizedHead] \<and>
     (\<exists>batches. [] \<notin> set batches \<and>
     storageFile st' = Some (''['' @ join '','' (map batchText batches) @ '']'') \<and>
     storageFile st' = Some (JSON_stringify (concat batches)) \<and>
     ((\<forall>at prefix cursor. state_getKeysPaged r prefix page cursor at = Inr []) \<longrightarrow>
        storageFile st' = Some ''[]''))"
proof -
  have first: "storageFile (openSnapshot st) = Some ''[''"
    "network (openSnapshot st) = network st @ [FinalizedHead]"
    using assms(1) by (simp_all add: openSnapshot_def stream_write_def)
  from assms(3) obtain at st1 Bs ds where h: "chain_getFinalizedHead r = Inr at"
    and l2: "list_all2 (\<lambda>l bs. callWrites r at (AwaitFirstKeys l) bs) (leafChunks ''0x'' chunksLevel) Bs"
    and s: "streamHolds st1 ds" and m: "mset ds = mset (concat (concat Bs))"
    and e: "st' = stream_write '']'' st1"
  proof
    assume "fetchPhase r chunksLevel st = Some (Inr st')"
    from fetchPhase_holds [OF assms(1,2) this] that show thesis by blast
  next
    assume "fetchPhaseQuick r chunksLevel st (Inr st')"
    from fetchPhaseQuick_holds [OF assms(1,2) this] that show thesis by blast
  qed
  have "storageFile st' = Some ''[]''"
    if "\<forall>at prefix cursor. state_getKeysPaged r prefix page cursor at = Inr []"
  proof -
    from that have "\<forall>prefix cursor. state_getKeysPaged r prefix page cursor at = Inr []"
      by simp
    from leaves_no_keys [OF this l2] m have "mset ds = {#}" by simp
    then have "ds = []" by simp
    with closed_stream [OF s] e show ?thesis by simp
  qed
  with closed_stream [OF s] e first show ?thesis by blast
qed

theorem snapshot_is_json_array_witness:
  \<open>\<exists>st' batches. fetchPhase nullRemote 0 initialState = Some (Inr st') \<and>
     storageFile st' = Some ''[["0xcc01",null]]'' \<and>
     storageFile st' = Some (JSON_stringify (concat batches))\<close>
proof -
  from fetchPhase_nullRemote_0 obtain st'
    where 1: "fetchPhase nullRemote 0 initialState = Some (Inr st')"
      and 2: \<open>storageFile st' = Some ''[["0xcc01",null]]''\<close>
    by blast
  have n: "storageFile initialState = None" "\<not> separator initialState"
    by (simp_all add: initialState_def)
  from snapshot_is_json_array [OF n disjI1 [OF 1]] 1 2 show ?thesis
    by blast
qed

section \<open>Both modes fetch the same pairs\<close>

text \<open>
  C4. From the same start, without a snapshot file and with \<open>separator\<close> false, and
  against the same node, a fetch phase with \<open>QUICK_MODE\<close> unset and one with
  \<open>QUICK_MODE\<close> set, whatever the order in which the answers arrive, leave snapshots
  that are \<open>JSON.stringify\<close> of two arrays of pairs with the same pairs, each as many
  times in the one as in the other. And whatever arrays of pairs the two snapshots are
  \<open>JSON.stringify\<close> of, they hold the same pairs as written.
\<close>

theorem modes_fetch_same_pairs:
  assumes "storageFile st = None" and "\<not> separator st"
    and "fetchPhase r chunksLevel st = Some (Inr st1)"
    and "fetchPhaseQuick r chunksLevel st (Inr st2)"
  shows "(\<exists>ps qs. storageFile st1 = Some (JSON_stringify ps) \<and>
        storageFile st2 = Some (JSON_stringify qs) \<and> mset ps = mset qs \<and> set ps = set qs) \<and>
     (\<forall>ps qs. storageFile st1 = Some (JSON_stringify ps) \<and>
        storageFile st2 = Some (JSON_stringify qs) \<longrightarrow>
        mset (map asWritten ps) = mset (map asWritten qs) \<and>
        asWritten ` set ps = asWritten ` set qs)"
proof -
  from fetchPhase_holds [OF assms(1,2,3)] obtain at s1 Bs
    where h1: "chain_getFinalizedHead r = Inr at"
      and b1: "list_all2 (\<lambda>l bs. callWrites r at (AwaitFirstKeys l) bs) (leafChunks ''0x'' chunksLevel) Bs"
      and s1: "streamHolds s1 (concat (concat Bs))" and e1: "st1 = stream_write '']'' s1"
    by blast
  from fetchPhaseQuick_holds [OF assms(1,2,4)] obtain at' s2 Cs ds
    where h2: "chain_getFinalizedHead r = Inr at'"
      and b2: "list_all2 (\<lambda>l bs. callWrites r at' (AwaitFirstKeys l) bs) (leafChunks ''0x'' chunksLevel) Cs"
      and s2: "streamHolds s2 ds" and m: "mset ds = mset (concat (concat Cs))"
      and e2: "st2 = stream_write '']'' s2"
    by blast
  from h1 h2 have "at' = at" by simp
  with b1 b2 have "Cs = Bs"
    using callWrites_list_unique by blast
  with m have "mset ds = mset (concat (concat Bs))" by simp
  then have "mset (concat ds) = mset (concat (concat (concat Bs)))"
    by (simp add: mset_concat flip: sum_mset_sum_list)
  moreover from this have "set (concat ds) = set (concat (concat (concat Bs)))"
    by (rule mset_eq_setD)
  moreover from closed_stream [OF s1, THEN conjunct2, THEN conjunct2]
  have "storageFile st1 = Some (JSON_stringify (concat (concat (concat Bs))))"
    unfolding e1 .
  moreover from closed_stream [OF s2, THEN conjunct2, THEN conjunct2]
  have "storageFile st2 = Some (JSON_stringify (concat ds))"
    unfolding e2 .
  ultimately have ex: "\<exists>ps qs. storageFile st1 = Some (JSON_stringify ps) \<and>
      storageFile st2 = Some (JSON_stringify qs) \<and> mset ps = mset qs \<and> set ps = set qs"
    by metis
  have "mset (map asWritten ps') = mset (map asWritten qs') \<and>
      asWritten ` set ps' = asWritten ` set qs'"
    if "storageFile st1 = Some (JSON_stringify ps') \<and> storageFile st2 = Some (JSON_stringify qs')"
    for ps' qs'
  proof -
    from ex obtain ps qs where 1: "storageFile st1 = Some (JSON_stringify ps)"
      and 2: "storageFile st2 = Some (JSON_stringify qs)" and m: "mset ps = mset qs"
      by blast
    from that 1 have "map asWritten ps' = map asWritten ps"
      by (intro JSON_stringify_inj) simp
    moreover from that 2 have "map asWritten qs' = map asWritten qs"
      by (intro JSON_stringify_inj) simp
    moreover from m have "mset (map asWritten ps) = mset (map asWritten qs)"
      by simp
    ultimately have e: "mset (map asWritten ps') = mset (map asWritten qs')"
      by simp
    then have "set (map asWritten ps') = set (map asWritten qs')"
      by (rule mset_eq_setD)
    with e show ?thesis by simp
  qed
  with ex show ?thesis by blast
qed

theorem modes_fetch_same_pairs_witness:
  "\<exists>st1 st2 ps qs. fetchPhase nullRemote 1 initialState = Some (Inr st1) \<and>
     fetchPhaseQuick nullRemote 1 initialState (Inr st2) \<and>
     storageFile st1 = Some (JSON_stringify ps) \<and>
     storageFile st2 = Some (JSON_stringify qs) \<and> mset ps = mset qs"
proof -
  from nullRemote_runs obtain st1 st2
    where 1: "fetchPhase nullRemote 1 initialState = Some (Inr st1)"
      and 2: "fetchPhaseQuick nullRemote 1 initialState (Inr st2)"
    by blast
  have n: "storageFile initialState = None" "\<not> separator initialState"
    by (simp_all add: initialState_def)
  from modes_fetch_same_pairs [OF n 1 2] 1 2 show ?thesis
    by blast
qed

end
